theory Spec2Isabelle
  imports Complex_Main
begin

section \<open>JavaScript values used by the dispatcher\<close>

text \<open>
  The service in \<^verbatim>\<open>server/src/services/geminiService.js\<close> is a class holding a pool
  of clients and a rotation cursor. Its methods receive loosely typed JavaScript values,
  so the part of the value space that the methods inspect is made explicit here.

  Numbers: the methods only ever do integer arithmetic on the preferred index, so a
  finite number is modelled by its integer value, next to the three non-finite doubles.
  Doubles represent integers exactly up to \<open>2^53\<close> and the remainder operator is exact
  on them; numbers with a fractional part are outside the model.

  Strings are lists of 8-bit characters, so a character stands for a code unit below 256.
\<close>

datatype jsnumber = Finite int | NaN | PosInfinity | NegInfinity

datatype jsvalue = JUndefined | JNull | JNumber jsnumber | JString string

text \<open>
  The remainder operator \<^verbatim>\<open>%\<close> of JavaScript truncates: the result has the sign of the
  dividend. Every use below has a positive divisor (the pool size, checked before).
\<close>

definition js_rem :: "int \<Rightarrow> int \<Rightarrow> int" where
  "js_rem a b = sgn a * (\<bar>a\<bar> mod \<bar>b\<bar>)"

text \<open>
  White space as \<^verbatim>\<open>String.prototype.trim\<close> and \<^verbatim>\<open>parseInt\<close> see it, restricted to
  code units below 256: TAB, LF, VT, FF, CR, SPACE and NO-BREAK SPACE.
\<close>

definition isWhiteSpace :: "char \<Rightarrow> bool" where
  "isWhiteSpace c = (c \<in> {CHR 0x09, CHR 0x0A, CHR 0x0B, CHR 0x0C, CHR 0x0D, CHR 0x20, CHR 0xA0})"

definition trimStart :: "string \<Rightarrow> string" where
  "trimStart s = dropWhile isWhiteSpace s"

definition trim :: "string \<Rightarrow> string" where
  "trim s = rev (trimStart (rev (trimStart s)))"

text \<open>A decimal digit is a code unit from 0x30 to 0x39.\<close>

definition isDigit :: "char \<Rightarrow> bool" where
  "isDigit c = (48 \<le> (of_char c :: nat) \<and> (of_char c :: nat) \<le> 57)"

definition digitValue :: "char \<Rightarrow> int" where
  "digitValue c = int (of_char c) - 48"

text \<open>The value of a run of decimal digits, most significant first.\<close>

fun digitsValue :: "int \<Rightarrow> string \<Rightarrow> int" where
  "digitsValue acc [] = acc"
| "digitsValue acc (c # cs) = digitsValue (acc * 10 + digitValue c) cs"

text \<open>
  \<^verbatim>\<open>parseInt(s, 10)\<close>: skip leading white space, read an optional sign, then the longest
  run of decimal digits; no digit gives NaN. Whatever follows the digits is ignored.
\<close>

definition parseInt10 :: "string \<Rightarrow> jsnumber" where
  "parseInt10 s =
     (let t = trimStart s;
          neg = (t \<noteq> [] \<and> hd t = CHR ''-'');
          u = (if t \<noteq> [] \<and> (hd t = CHR ''+'' \<or> hd t = CHR ''-'') then tl t else t);
          z = takeWhile isDigit u
      in if z = [] then NaN
         else if neg then Finite (- digitsValue 0 z) else Finite (digitsValue 0 z))"

text \<open>\<^verbatim>\<open>String.prototype.includes\<close> with a literal needle.\<close>

fun startsWith :: "string \<Rightarrow> string \<Rightarrow> bool" where
  "startsWith s [] = True"
| "startsWith [] (p # ps) = False"
| "startsWith (c # cs) (p # ps) = (c = p \<and> startsWith cs ps)"

fun js_includes :: "string \<Rightarrow> string \<Rightarrow> bool" where
  "js_includes [] needle = (needle = [])"
| "js_includes (c # cs) needle = (startsWith (c # cs) needle \<or> js_includes cs needle)"

text \<open>
  \<^verbatim>\<open>String.prototype.split\<close> with a one-character separator: the pieces between the
  separators, empty pieces included. The empty string splits into one empty piece.
\<close>

fun split :: "char \<Rightarrow> string \<Rightarrow> string list" where
  "split sep [] = [[]]"
| "split sep (c # cs) =
     (if c = sep then [] # split sep cs
      else (case split sep cs of
              [] \<Rightarrow> [[c]]
            | w # ws \<Rightarrow> (c # w) # ws))"


section \<open>The service object\<close>

text \<open>
  A client is an opaque handle bound to one credential
  (\<^verbatim>\<open>new GoogleGenAI({ apiKey })\<close>). The service keeps the credentials, one client per
  credential, and the rotation cursor \<^verbatim>\<open>_nextClientIndex\<close>, which starts at 0 and is
  only ever assigned a remainder by the pool size, hence a natural number.
\<close>

datatype client = GoogleGenAI string

record service =
  apiKeys :: "string list"
  clients :: "client list"
  nextClientIndex :: nat

definition hasAI :: "service \<Rightarrow> bool" where
  "hasAI this = (length (clients this) > 0)"


subsection \<open>Pool construction\<close>

text \<open>
  An environment variable is either unset or a string. \<^verbatim>\<open>parseKeyList\<close> returns the empty
  list for an unset or empty value; \<^verbatim>\<open>filter(Boolean)\<close> keeps the non-empty strings.
\<close>

definition parseKeyList :: "string option \<Rightarrow> string list" where
  "parseKeyList v =
     (case v of
        None \<Rightarrow> []
      | Some s \<Rightarrow> if s = [] then []
                  else filter (\<lambda>k. k \<noteq> []) (map trim (split CHR '','' s)))"

definition warnDisabled :: string where
  "warnDisabled = ''GEMINI_API_KEY(S) not set. AI features will be disabled.''"

text \<open>
  The constructor, from the two environment variables \<^verbatim>\<open>GEMINI_API_KEYS\<close> and
  \<^verbatim>\<open>GEMINI_API_KEY\<close>. It returns the new object and the lines written with
  \<^verbatim>\<open>console.warn\<close>. No path of the constructor throws.
\<close>

definition constructor :: "string option \<Rightarrow> string option \<Rightarrow> service \<times> string list" where
  "constructor GEMINI_API_KEYS GEMINI_API_KEY =
     (let keys0 = parseKeyList GEMINI_API_KEYS;
          keys = (if length keys0 = 0 \<and> GEMINI_API_KEY \<noteq> None \<and> GEMINI_API_KEY \<noteq> Some []
                  then filter (\<lambda>k. k \<noteq> []) [trim (the GEMINI_API_KEY)]
                  else keys0);
          this = \<lparr> apiKeys = keys, clients = map GoogleGenAI keys, nextClientIndex = 0 \<rparr>
      in (this, if length (clients this) = 0 then [warnDisabled] else []))"


subsection \<open>Client selection\<close>

definition normalizePreferredKeyIndex :: "service \<Rightarrow> jsvalue \<Rightarrow> int option" where
  "normalizePreferredKeyIndex this v =
     (if v = JUndefined \<or> v = JNull then None
      else
        let parsed = (case v of JNumber n \<Rightarrow> n | JString s \<Rightarrow> parseInt10 s | _ \<Rightarrow> NaN)
        in case parsed of
             Finite p \<Rightarrow>
               if \<not> hasAI this then None
               else
                 let count = int (length (clients this));
                     normalized = js_rem (js_rem p count + count) count
                 in Some normalized
           | _ \<Rightarrow> None)"

text \<open>
  The loop of \<^verbatim>\<open>getClientOrder\<close> that pushes \<^verbatim>\<open>(start + i) % count\<close> for
  \<^verbatim>\<open>i = 0, ..., count - 1\<close>: \<open>orderLoop start count k\<close> is the array after \<open>k\<close> iterations.
\<close>

fun orderLoop :: "int \<Rightarrow> int \<Rightarrow> nat \<Rightarrow> int list" where
  "orderLoop start count 0 = []"
| "orderLoop start count (Suc i) = orderLoop start count i @ [js_rem (start + int i) count]"

text \<open>\<^verbatim>\<open>getClientOrder\<close> returns the order and the service with its cursor updated.\<close>

definition getClientOrder :: "jsvalue \<Rightarrow> service \<Rightarrow> int list \<times> service" where
  "getClientOrder preferredKeyIndex this =
     (let count = length (clients this) in
      if count = 0 then ([], this)
      else
        let preferred = normalizePreferredKeyIndex this preferredKeyIndex;
            start = (case preferred of
                       Some p \<Rightarrow> p
                     | None \<Rightarrow> js_rem (int (nextClientIndex this)) (int count));
            this' = (if preferred = None
                     then this\<lparr> nextClientIndex := nat (js_rem (start + 1) (int count)) \<rparr>
                     else this)
        in (orderLoop start (int count) count, this'))"

text \<open>
  A run of \<open>k\<close> consecutive calls of \<^verbatim>\<open>getClientOrder\<close> that pin no index, each on the
  state the previous one left: the list of the orders they return.
\<close>

fun unpinnedCalls :: "nat \<Rightarrow> service \<Rightarrow> int list list" where
  "unpinnedCalls 0 this = []"
| "unpinnedCalls (Suc k) this =
     (case getClientOrder JUndefined this of
        (order, this') \<Rightarrow> order # unpinnedCalls k this')"


section \<open>The retry and backoff loop\<close>

text \<open>
  A failure caught by the dispatcher. \<^verbatim>\<open>makeRequestWithRetry\<close> reads four things from
  it: \<^verbatim>\<open>err.status\<close>, \<^verbatim>\<open>err.response.status\<close>, \<^verbatim>\<open>err.message\<close>, and, for the caller,
  \<^verbatim>\<open>err.userMessage\<close>; each may be absent. A status is compared with \<^verbatim>\<open>===\<close> against
  numbers only, so a status that is not a number behaves like a number outside the
  tested codes. A thrown value that is not an object has none of the fields.
\<close>

record js_error =
  status :: "int option"
  response_status :: "int option"
  message :: "string option"
  userMessage :: "string option"

definition getStatus :: "js_error \<Rightarrow> int option" where
  "getStatus err = (case status err of Some s \<Rightarrow> Some s | None \<Rightarrow> response_status err)"

definition getMessage :: "js_error \<Rightarrow> string" where
  "getMessage err = (case message err of Some m \<Rightarrow> m | None \<Rightarrow> [])"

definition isQuotaExceeded429 :: "js_error \<Rightarrow> bool" where
  "isQuotaExceeded429 err =
     (let code = getStatus err in
      if code \<noteq> Some 429 then False
      else
        let msg = getMessage err
        in js_includes msg ''Quota exceeded'' \<or>
           js_includes msg ''RESOURCE_EXHAUSTED'' \<or>
           js_includes msg ''RATE_LIMIT_EXCEEDED'')"

definition isAuthError :: "int option \<Rightarrow> bool" where
  "isAuthError code = (code = Some 401 \<or> code = Some 403)"

definition isRetryableStatus :: "int option \<Rightarrow> bool" where
  "isRetryableStatus code =
     (case code of
        None \<Rightarrow> False
      | Some s \<Rightarrow> if s = 0 then False else s \<in> set [408, 429, 500, 502, 503, 504])"

text \<open>The two errors the dispatcher builds itself.\<close>

definition notInitializedError :: js_error where
  "notInitializedError =
     \<lparr> status = Some 503, response_status = None,
       message = Some ''AI service not initialized'',
       userMessage = Some ''AI features are disabled on the server.'' \<rparr>"

definition quotaExceededError :: js_error where
  "quotaExceededError =
     \<lparr> status = Some 429, response_status = None,
       message = Some ''Gemini quota exceeded'',
       userMessage = Some ''AI is temporarily unavailable (Gemini quota exceeded). Try again later or increase your Gemini quota.'' \<rparr>"

text \<open>
  The caller's operation is a closure run against one client. It talks to a remote
  service, so it is modelled as a function of the client and of the state \<open>'w\<close> of
  everything outside the dispatcher; it either returns a result or throws, and leaves a
  new outside state. An operation that never settles is outside the model.
  \<^verbatim>\<open>this.clients[i]\<close> is \<^verbatim>\<open>undefined\<close> when \<open>i\<close> is no index of the array.
\<close>

type_synonym ('w, 'a) operation = "client option \<Rightarrow> 'w \<Rightarrow> (js_error + 'a) \<times> 'w"

definition js_index :: "'a list \<Rightarrow> int \<Rightarrow> 'a option" where
  "js_index xs i = (if 0 \<le> i \<and> nat i < length xs then Some (xs ! nat i) else None)"

text \<open>
  What a call does that can be observed from outside, in order: each invocation of the
  operation, with the index of the client and the outcome, and each backoff sleep, with
  its delay in milliseconds.
\<close>

datatype 'a event = Called int "js_error + 'a" | Slept real

text \<open>How the loop over the clients of one round is left.\<close>

datatype 'a loopexit = Return 'a | Throw js_error | NextRound

type_synonym ('w, 'a) roundresult = "'a loopexit \<times> js_error option \<times> 'w \<times> 'a event list"

definition emit :: "'a event \<Rightarrow> ('w, 'a) roundresult \<Rightarrow> ('w, 'a) roundresult" where
  "emit e res = (case res of (x, lastError, w, evs) \<Rightarrow> (x, lastError, w, e # evs))"

text \<open>
  The inner loop \<^verbatim>\<open>for (const clientIndex of order)\<close> with its \<^verbatim>\<open>try\<close>/\<^verbatim>\<open>catch\<close>.
  \<^verbatim>\<open>continue\<close> is the recursive call, \<^verbatim>\<open>break\<close> and the end of the order both leave
  the loop towards the backoff step. The function returns how the loop was left, the value
  of \<^verbatim>\<open>lastError\<close>, the outside state and the events of the round.
\<close>

fun tryClients ::
  "('w, 'a) operation \<Rightarrow> client list \<Rightarrow> int \<Rightarrow> nat \<Rightarrow> int list \<Rightarrow> js_error option \<Rightarrow> 'w
     \<Rightarrow> ('w, 'a) roundresult" where
  "tryClients operation cs maxRetries attempt [] lastError w = (NextRound, lastError, w, [])"
| "tryClients operation cs maxRetries attempt (clientIndex # rest) lastError w =
     (let ai = js_index cs clientIndex in
      case operation ai w of
        (Inr r, w') \<Rightarrow> (Return r, lastError, w', [Called clientIndex (Inr r)])
      | (Inl error, w') \<Rightarrow>
          if isQuotaExceeded429 error
          then (Throw quotaExceededError, Some error, w', [Called clientIndex (Inl error)])
          else
            let code = getStatus error in
            if isAuthError code
            then emit (Called clientIndex (Inl error))
                   (tryClients operation cs maxRetries attempt rest (Some error) w')
            else if code = Some 429
            then emit (Called clientIndex (Inl error))
                   (tryClients operation cs maxRetries attempt rest (Some error) w')
            else if isRetryableStatus code \<and> int attempt < maxRetries - 1
            then (NextRound, Some error, w', [Called clientIndex (Inl error)])
            else (Throw error, Some error, w', [Called clientIndex (Inl error)]))"

subsection \<open>Doubles\<close>

text \<open>
  The delay is computed in IEEE 754 binary64 numbers. A finite double is \<open>m * 2^e\<close> with
  integers \<open>m\<close> and \<open>e\<close> and \<open>\<bar>m\<bar> < 2^53\<close>; \<open>Double m e\<close> stands for it. A product or a
  sum is the exact result rounded to 53 significant bits, to the nearest such number and
  to the even one of two that are equally near. The range of the exponent is not
  modelled: multiplying by 500 and adding a number from 1000 on never leaves the normal
  range downwards, and a sum beyond the range is \<^verbatim>\<open>Infinity\<close>, where the minimum with
  8000 is 8000 as it is for the exact sum.
\<close>

datatype double = Double int int

definition valueOf :: "double \<Rightarrow> real" where
  "valueOf d =
     (case d of Double m e \<Rightarrow>
        if 0 \<le> e then of_int m * 2 ^ nat e else of_int m / 2 ^ nat (- e))"

text \<open>The number of bits of a positive integer.\<close>

function bitlen :: "int \<Rightarrow> nat" where
  "bitlen m = (if m \<le> 0 then 0 else Suc (bitlen (m div 2)))"
  by pat_completeness auto
termination
  by (relation "measure nat") auto

declare bitlen.simps [simp del]

text \<open>\<open>m / 2^k\<close> rounded to the nearest integer, to the even one at a tie.\<close>

definition roundHalfEven :: "int \<Rightarrow> nat \<Rightarrow> int" where
  "roundHalfEven m k =
     (let q = m div 2 ^ k; r = m mod 2 ^ k
      in if 2 * r < 2 ^ k then q
         else if 2 ^ k < 2 * r then q + 1
         else if even q then q else q + 1)"

text \<open>The double nearest to \<open>m * 2^e\<close>.\<close>

definition roundToDouble :: "int \<Rightarrow> int \<Rightarrow> double" where
  "roundToDouble m e =
     (let n = bitlen \<bar>m\<bar>
      in if n \<le> 53 then Double m e
         else Double (roundHalfEven m (n - 53)) (e + int (n - 53)))"

text \<open>The operators \<^verbatim>\<open>*\<close> and \<^verbatim>\<open>+\<close> on doubles.\<close>

definition dmul :: "double \<Rightarrow> double \<Rightarrow> double" where
  "dmul x y = (case x of Double a ea \<Rightarrow> case y of Double b eb \<Rightarrow> roundToDouble (a * b) (ea + eb))"

definition dadd :: "double \<Rightarrow> double \<Rightarrow> double" where
  "dadd x y =
     (case x of Double a ea \<Rightarrow> case y of Double b eb \<Rightarrow>
        let e = min ea eb
        in roundToDouble (a * 2 ^ nat (ea - e) + b * 2 ^ nat (eb - e)) e)"


subsection \<open>The rounds of a call\<close>

text \<open>
  The state a call threads through its rounds: the service (for the cursor), the outside
  state, and how many numbers the call has drawn from \<^verbatim>\<open>Math.random\<close>. The numbers drawn
  are given as a sequence \<open>rnd\<close> of doubles.
\<close>

record 'w callstate =
  svc :: service
  world :: 'w
  draws :: nat

text \<open>What the caller gets: the result, or the value thrown.\<close>

datatype thrown = ThrownUndefined | ThrownError js_error

datatype 'a completion = Returned 'a | Thrown thrown

type_synonym ('w, 'a) callresult = "'a completion \<times> 'w callstate \<times> 'a event list"

definition before :: "'a event list \<Rightarrow> ('w, 'a) callresult \<Rightarrow> ('w, 'a) callresult" where
  "before evs res = (case res of (c, st, evs') \<Rightarrow> (c, st, evs @ evs'))"

text \<open>A pair that is a double: its mantissa has at most 53 bits.\<close>

definition isDouble :: "double \<Rightarrow> bool" where
  "isDouble d = (case d of Double m e \<Rightarrow> bitlen \<bar>m\<bar> \<le> 53)"


text \<open>
  \<^verbatim>\<open>Math.min(8000, Math.pow(2, attempt) * 1000 + (Math.random() * 500))\<close>, for the number
  drawn: the power of two is exact, each product and the sum are rounded. The result
  is given by its value in milliseconds.
\<close>

definition backoffDelay :: "nat \<Rightarrow> double \<Rightarrow> real" where
  "backoffDelay attempt random =
     min 8000 (valueOf (dadd (dmul (Double 1 (int attempt)) (Double 1000 0))
                             (dmul random (Double 500 0))))"

definition throwLast :: "js_error option \<Rightarrow> thrown" where
  "throwLast lastError = (case lastError of None \<Rightarrow> ThrownUndefined | Some e \<Rightarrow> ThrownError e)"

text \<open>
  The outer loop \<^verbatim>\<open>for (let attempt = 0; attempt < maxRetries; attempt++)\<close>, from the
  round \<open>attempt\<close> on, and the final \<^verbatim>\<open>throw lastError\<close>.
\<close>

function rounds ::
  "('w, 'a) operation \<Rightarrow> (nat \<Rightarrow> double) \<Rightarrow> jsvalue \<Rightarrow> int \<Rightarrow> nat \<Rightarrow> js_error option \<Rightarrow> 'w callstate
     \<Rightarrow> ('w, 'a) callresult" where
  "rounds operation rnd preferredKeyIndex maxRetries attempt lastError st =
     (if int attempt < maxRetries then
        (case getClientOrder preferredKeyIndex (svc st) of
           (order, this') \<Rightarrow>
             (case tryClients operation (clients this') maxRetries attempt order lastError (world st) of
                (Return r, lastError', w, evs) \<Rightarrow>
                  (Returned r, st\<lparr> svc := this', world := w \<rparr>, evs)
              | (Throw e, lastError', w, evs) \<Rightarrow>
                  (Thrown (ThrownError e), st\<lparr> svc := this', world := w \<rparr>, evs)
              | (NextRound, lastError', w, evs) \<Rightarrow>
                  if int attempt < maxRetries - 1
                  then
                    let delay = backoffDelay attempt (rnd (draws st))
                    in before (evs @ [Slept delay])
                         (rounds operation rnd preferredKeyIndex maxRetries (Suc attempt) lastError'
                            (st\<lparr> svc := this', world := w, draws := Suc (draws st) \<rparr>))
                  else
                    before evs
                      (rounds operation rnd preferredKeyIndex maxRetries (Suc attempt) lastError'
                         (st\<lparr> svc := this', world := w \<rparr>))))
      else (Thrown (throwLast lastError), st, []))"
  by pat_completeness auto
termination
  by (relation "measure (\<lambda>(operation, rnd, preferredKeyIndex, maxRetries, attempt, lastError, st).
                   nat (maxRetries - int attempt))") auto

declare rounds.simps [simp del]

text \<open>
  \<^verbatim>\<open>makeRequestWithRetry(operation, { maxRetries = 3, preferredKeyIndex })\<close>: an absent
  \<^verbatim>\<open>maxRetries\<close> is 3.
\<close>

definition makeRequestWithRetry ::
  "('w, 'a) operation \<Rightarrow> (nat \<Rightarrow> double) \<Rightarrow> int option \<Rightarrow> jsvalue \<Rightarrow> 'w callstate
     \<Rightarrow> ('w, 'a) callresult" where
  "makeRequestWithRetry operation rnd maxRetriesOpt preferredKeyIndex st =
     (let maxRetries = (case maxRetriesOpt of None \<Rightarrow> 3 | Some m \<Rightarrow> m) in
      if \<not> hasAI (svc st)
      then (Thrown (ThrownError notInitializedError), st, [])
      else rounds operation rnd preferredKeyIndex maxRetries 0 None st)"


section \<open>Tolerant JSON extraction\<close>

text \<open>
  \<^verbatim>\<open>text.replace(/needle/g, '')\<close> for a literal needle: every match is removed, scanning
  from the left and resuming after each match.
\<close>

fun removeAll :: "string \<Rightarrow> string \<Rightarrow> string" where
  "removeAll [] s = s"
| "removeAll (n # ns) [] = []"
| "removeAll (n # ns) (c # cs) =
     (if startsWith (c # cs) (n # ns) then removeAll (n # ns) (drop (length ns) cs)
      else c # removeAll (n # ns) cs)"

text \<open>\<^verbatim>\<open>indexOf\<close> and \<^verbatim>\<open>lastIndexOf\<close> of one character: \<open>-1\<close> when it does not occur.\<close>

fun indexOf :: "string \<Rightarrow> char \<Rightarrow> int" where
  "indexOf [] ch = - 1"
| "indexOf (c # cs) ch =
     (if c = ch then 0 else (let r = indexOf cs ch in if r = - 1 then - 1 else r + 1))"

definition lastIndexOf :: "string \<Rightarrow> char \<Rightarrow> int" where
  "lastIndexOf s ch =
     (let r = indexOf (rev s) ch in if r = - 1 then - 1 else int (length s) - 1 - r)"

text \<open>
  \<^verbatim>\<open>substring(a, b)\<close>: both arguments are clamped to the length of the string, and they
  are swapped when the first is the larger.
\<close>

definition substring :: "string \<Rightarrow> int \<Rightarrow> int \<Rightarrow> string" where
  "substring s a b =
     (let len = int (length s);
          a' = min (max a 0) len;
          b' = min (max b 0) len;
          from = min a' b';
          to = max a' b'
      in take (nat (to - from)) (drop (nat from) s))"

text \<open>
  What \<^verbatim>\<open>cleanJson\<close> throws: the \<^verbatim>\<open>SyntaxError\<close> of \<^verbatim>\<open>JSON.parse\<close>, whose message is the
  engine's and is determined by the text that was rejected, kept here; or the
  \<^verbatim>\<open>Error\<close> that \<^verbatim>\<open>cleanJson\<close> builds, with its message.
\<close>

datatype parse_error = SyntaxError string | Error string

text \<open>
  \<^verbatim>\<open>cleanJson\<close>, with \<^verbatim>\<open>JSON.parse\<close> as a parameter: a function that returns the parsed value
  or nothing when it throws.
\<close>

definition cleanJson :: "(string \<Rightarrow> 'v option) \<Rightarrow> string \<Rightarrow> parse_error + 'v" where
  "cleanJson JSON_parse text =
     (let simple = trim (removeAll ''```'' (removeAll ''```json'' text)) in
      case JSON_parse simple of
        Some v \<Rightarrow> Inr v
      | None \<Rightarrow>
          let firstBrace = indexOf text CHR ''{'';
              lastBrace = lastIndexOf text CHR ''}'';
              firstBracket = indexOf text CHR ''['';
              lastBracket = lastIndexOf text CHR '']'';
              (start, end) =
                (if firstBrace \<noteq> - 1 \<and> (firstBracket = - 1 \<or> firstBrace < firstBracket)
                 then (firstBrace, lastBrace)
                 else if firstBracket \<noteq> - 1 then (firstBracket, lastBracket)
                 else (- 1, - 1))
          in if start \<noteq> - 1 \<and> end \<noteq> - 1
             then
               let substring = substring text start (end + 1)
               in (case JSON_parse substring of
                     Some v \<Rightarrow> Inr v
                   | None \<Rightarrow> Inl (SyntaxError substring))
             else Inl (Error (''Failed to parse JSON from AI response: '' @ substring text 0 100 @ ''...'')))"


section \<open>A reading of JSON texts\<close>

text \<open>
  \<^verbatim>\<open>JSON.parse\<close> belongs to the language, not to the repository. The examples need a
  concrete instance, so the JSON grammar (ECMA-404) is written out: white space is
  space, tab, line feed and carriage return; a number is kept as its text, a string as
  the text between its quotes, an object as the list of its members in their order.
\<close>

datatype json =
    JsonNull
  | JsonBool bool
  | JsonNumber string
  | JsonString string
  | JsonArray "json list"
  | JsonObject "(string \<times> json) list"

definition isJsonSpace :: "char \<Rightarrow> bool" where
  "isJsonSpace c = (c \<in> {CHR 0x20, CHR 0x09, CHR 0x0A, CHR 0x0D})"

definition skipSpace :: "string \<Rightarrow> string" where
  "skipSpace s = dropWhile isJsonSpace s"

definition isHexDigit :: "char \<Rightarrow> bool" where
  "isHexDigit c = (isDigit c \<or> c \<in> set ''abcdefABCDEF'')"

text \<open>
  The rest of a string after its opening quote: the characters up to the closing quote
  (collected in reverse in \<open>acc\<close>) and what follows it. Control characters, a lone
  backslash and an unknown escape are errors.
\<close>

fun scanString :: "string \<Rightarrow> string \<Rightarrow> (string \<times> string) option" where
  "scanString acc [] = None"
| "scanString acc (c # cs) =
     (if c = CHR 0x22 then Some (rev acc, cs)
      else if c = CHR 0x5C then
        (case cs of
           [] \<Rightarrow> None
         | e # es \<Rightarrow>
             if e \<in> set [CHR 0x22, CHR 0x5C, CHR ''/'', CHR ''b'', CHR ''f'', CHR ''n'', CHR ''r'', CHR ''t'']
             then scanString (e # c # acc) es
             else if e = CHR ''u'' \<and> 4 \<le> length es \<and> list_all isHexDigit (take 4 es)
             then scanString (rev (take 4 es) @ e # c # acc) (drop 4 es)
             else None)
      else if (of_char c :: nat) < 32 then None
      else scanString (c # acc) cs)"

text \<open>A run of digits that must not be empty.\<close>

definition scanDigits :: "string \<Rightarrow> (string \<times> string) option" where
  "scanDigits s =
     (let ds = takeWhile isDigit s in if ds = [] then None else Some (ds, dropWhile isDigit s))"

text \<open>A number: sign, integer part without leading zero, fraction, exponent.\<close>

definition scanNumber :: "string \<Rightarrow> (string \<times> string) option" where
  "scanNumber s =
     (let (sign, s1) = (if s \<noteq> [] \<and> hd s = CHR ''-'' then (''-'', tl s) else ([], s)) in
      case (if s1 \<noteq> [] \<and> hd s1 = CHR ''0'' then Some (''0'', tl s1) else scanDigits s1) of
        None \<Rightarrow> None
      | Some (ip, s2) \<Rightarrow>
          (case (if s2 \<noteq> [] \<and> hd s2 = CHR ''.''
                 then map_option (\<lambda>(ds, r). (CHR ''.'' # ds, r)) (scanDigits (tl s2))
                 else Some ([], s2)) of
             None \<Rightarrow> None
           | Some (fp, s3) \<Rightarrow>
               (case (if s3 \<noteq> [] \<and> (hd s3 = CHR ''e'' \<or> hd s3 = CHR ''E'')
                      then
                        (let s4 = tl s3;
                             (es, s5) = (if s4 \<noteq> [] \<and> (hd s4 = CHR ''+'' \<or> hd s4 = CHR ''-'')
                                         then ([hd s4], tl s4) else ([], s4))
                         in map_option (\<lambda>(ds, r). (hd s3 # es @ ds, r)) (scanDigits s5))
                      else Some ([], s3)) of
                  None \<Rightarrow> None
                | Some (ep, s6) \<Rightarrow> Some (sign @ ip @ fp @ ep, s6))))"

text \<open>
  Values, the elements of an array after its bracket, the members of an object after
  its brace. The first argument bounds the number of nested calls; each call reads at
  least one character, so twice the length of the text is enough.
\<close>

fun parseValue :: "nat \<Rightarrow> string \<Rightarrow> (json \<times> string) option"
  and parseElements :: "nat \<Rightarrow> string \<Rightarrow> (json list \<times> string) option"
  and parseMembers :: "nat \<Rightarrow> string \<Rightarrow> ((string \<times> json) list \<times> string) option" where
  "parseValue 0 s = None"
| "parseValue (Suc n) s =
     (case skipSpace s of
        [] \<Rightarrow> None
      | c # cs \<Rightarrow>
          if c = CHR ''{'' then
            (case skipSpace cs of
               [] \<Rightarrow> None
             | d # ds \<Rightarrow>
                 if d = CHR ''}'' then Some (JsonObject [], ds)
                 else map_option (\<lambda>(ms, r). (JsonObject ms, r)) (parseMembers n cs))
          else if c = CHR ''['' then
            (case skipSpace cs of
               [] \<Rightarrow> None
             | d # ds \<Rightarrow>
                 if d = CHR '']'' then Some (JsonArray [], ds)
                 else map_option (\<lambda>(vs, r). (JsonArray vs, r)) (parseElements n cs))
          else if c = CHR 0x22 then
            map_option (\<lambda>(str, r). (JsonString str, r)) (scanString [] cs)
          else if startsWith (c # cs) ''true'' then Some (JsonBool True, drop 4 (c # cs))
          else if startsWith (c # cs) ''false'' then Some (JsonBool False, drop 5 (c # cs))
          else if startsWith (c # cs) ''null'' then Some (JsonNull, drop 4 (c # cs))
          else map_option (\<lambda>(num, r). (JsonNumber num, r)) (scanNumber (c # cs)))"
| "parseElements 0 s = None"
| "parseElements (Suc n) s =
     (case parseValue n s of
        None \<Rightarrow> None
      | Some (v, r) \<Rightarrow>
          (case skipSpace r of
             [] \<Rightarrow> None
           | d # ds \<Rightarrow>
               if d = CHR '','' then
                 map_option (\<lambda>(vs, r'). (v # vs, r')) (parseElements n ds)
               else if d = CHR '']'' then Some ([v], ds)
               else None))"
| "parseMembers 0 s = None"
| "parseMembers (Suc n) s =
     (case skipSpace s of
        [] \<Rightarrow> None
      | q # qs \<Rightarrow>
          if q \<noteq> CHR 0x22 then None
          else
            (case scanString [] qs of
               None \<Rightarrow> None
             | Some (key, r) \<Rightarrow>
                 (case skipSpace r of
                    [] \<Rightarrow> None
                  | c # cs \<Rightarrow>
                      if c \<noteq> CHR '':'' then None
                      else
                        (case parseValue n cs of
                           None \<Rightarrow> None
                         | Some (v, r') \<Rightarrow>
                             (case skipSpace r' of
                                [] \<Rightarrow> None
                              | d # ds \<Rightarrow>
                                  if d = CHR '','' then
                                    map_option (\<lambda>(ms, r''). ((key, v) # ms, r'')) (parseMembers n ds)
                                  else if d = CHR ''}'' then Some ([(key, v)], ds)
                                  else None)))))"

definition jsonParse :: "string \<Rightarrow> json option" where
  "jsonParse text =
     (case parseValue (2 * length text + 2) text of
        None \<Rightarrow> None
      | Some (v, r) \<Rightarrow> if skipSpace r = [] then Some v else None)"


section \<open>Notions used to state the properties\<close>

text \<open>
  The index a rotation starts at: the normalised preferred index when there is one, the
  cursor (reduced by the pool size) otherwise.
\<close>

definition startIndex :: "service \<Rightarrow> jsvalue \<Rightarrow> int" where
  "startIndex this p =
     (case normalizePreferredKeyIndex this p of
        Some q \<Rightarrow> q
      | None \<Rightarrow> int (nextClientIndex this mod length (clients this)))"

text \<open>
  The configured credential list as the specification words it: split on commas, trim
  each entry, drop the empty entries, keep the order.
\<close>

definition configuredKeys :: "string option \<Rightarrow> string list" where
  "configuredKeys v =
     (case v of
        None \<Rightarrow> []
      | Some s \<Rightarrow> filter (\<lambda>k. k \<noteq> []) (map trim (split CHR '','' s)))"

text \<open>Joining pieces with a separator, the inverse of \<open>split\<close>.\<close>

fun join :: "char \<Rightarrow> string list \<Rightarrow> string" where
  "join sep [] = []"
| "join sep [w] = w"
| "join sep (w # v # ws) = w @ sep # join sep (v # ws)"

text \<open>A pool of three clients whose cursor stands at 1, for the examples.\<close>

definition pool3 :: service where
  "pool3 = \<lparr> apiKeys = [''k0'', ''k1'', ''k2''],
             clients = [GoogleGenAI ''k0'', GoogleGenAI ''k1'', GoogleGenAI ''k2''],
             nextClientIndex = 1 \<rparr>"


text \<open>
  A transient failure: a status of the retryable class other than 429, which the loop
  treats before it looks at that class.
\<close>

definition isTransient :: "js_error \<Rightarrow> bool" where
  "isTransient e = (getStatus e \<in> {Some 408, Some 500, Some 502, Some 503, Some 504})"

text \<open>An invocation that failed with what the dispatcher takes for quota exhaustion.\<close>

fun isQuotaFailure :: "'a event \<Rightarrow> bool" where
  "isQuotaFailure (Called i (Inl e)) = isQuotaExceeded429 e"
| "isQuotaFailure (Called i (Inr r)) = False"
| "isQuotaFailure (Slept d) = False"

text \<open>
  The value of \<^verbatim>\<open>lastError\<close> after a sequence of events: every caught failure is
  assigned to it, nothing else is.
\<close>

fun recorded :: "js_error option \<Rightarrow> 'a event list \<Rightarrow> js_error option" where
  "recorded lastError [] = lastError"
| "recorded lastError (Called i (Inl e) # evs) = recorded (Some e) evs"
| "recorded lastError (Called i (Inr r) # evs) = recorded lastError evs"
| "recorded lastError (Slept d # evs) = recorded lastError evs"


text \<open>
  The first opening delimiter of a text, as the specification words it: the position of
  the first character that is a brace or a bracket, with the closing delimiter that
  belongs to it.
\<close>

fun opener :: "string \<Rightarrow> (nat \<times> char) option" where
  "opener [] = None"
| "opener (c # cs) =
     (if c = CHR ''{'' then Some (0, CHR ''}'')
      else if c = CHR ''['' then Some (0, CHR '']'')
      else map_option (\<lambda>(i, cl). (Suc i, cl)) (opener cs))"

text \<open>The position of the last occurrence of a character that occurs.\<close>

definition lastOccurrence :: "string \<Rightarrow> char \<Rightarrow> nat" where
  "lastOccurrence text ch = length text - 1 - length (takeWhile (\<lambda>c. c \<noteq> ch) (rev text))"

text \<open>
  The piece from the opener at \<open>i\<close> through the closer at \<open>j\<close>, for a closer that does not
  stand before the opener.
\<close>

definition candidate :: "string \<Rightarrow> nat \<Rightarrow> nat \<Rightarrow> string" where
  "candidate text i j = take (j + 1 - i) (drop i text)"

definition failureMessage :: "string \<Rightarrow> string" where
  "failureMessage text = ''Failed to parse JSON from AI response: '' @ take 100 text @ ''...''"


text \<open>Powers of two with an integer exponent, as reals.\<close>

definition p2 :: "int \<Rightarrow> real" where
  "p2 e = 2 powr real_of_int e"


text \<open>Pools, failures and operations for the examples. The outside state is trivial.\<close>

definition pool1 :: service where
  "pool1 = \<lparr> apiKeys = [''k0''], clients = [GoogleGenAI ''k0''], nextClientIndex = 0 \<rparr>"

definition pool2 :: service where
  "pool2 = \<lparr> apiKeys = [''k0'', ''k1''],
             clients = [GoogleGenAI ''k0'', GoogleGenAI ''k1''],
             nextClientIndex = 0 \<rparr>"

definition serverError :: js_error where
  "serverError = \<lparr> status = Some 500, response_status = None,
                    message = Some ''Internal error'', userMessage = None \<rparr>"

definition networkError :: js_error where
  "networkError = \<lparr> status = None, response_status = None,
                     message = Some ''fetch failed'', userMessage = None \<rparr>"

definition invalidKey :: js_error where
  "invalidKey = \<lparr> status = Some 403, response_status = None,
                   message = Some ''API key not valid'', userMessage = None \<rparr>"

definition tooManyRequests :: js_error where
  "tooManyRequests = \<lparr> status = Some 429, response_status = None,
                        message = Some ''Too Many Requests'', userMessage = None \<rparr>"

definition accountExhausted :: js_error where
  "accountExhausted = \<lparr> status = Some 429, response_status = None,
                        message = Some ''RESOURCE_EXHAUSTED: quota metric exceeded'',
                        userMessage = None \<rparr>"

definition keyThrottled :: js_error where
  "keyThrottled = \<lparr> status = Some 429, response_status = None,
                     message = Some ''RATE_LIMIT_EXCEEDED: requests per minute for this key'',
                     userMessage = None \<rparr>"

definition failing :: "js_error \<Rightarrow> (unit, string) operation" where
  "failing e ai w = (Inl e, w)"

definition firstKeyRevoked :: "(unit, string) operation" where
  "firstKeyRevoked ai w =
     (if ai = Some (GoogleGenAI ''k0'') then (Inl invalidKey, w) else (Inr ''a review'', w))"

definition firstKeyLimited :: "(unit, string) operation" where
  "firstKeyLimited ai w =
     (if ai = Some (GoogleGenAI ''k0'') then (Inl tooManyRequests, w) else (Inr ''a review'', w))"

definition noJitter :: "nat \<Rightarrow> double" where
  "noJitter k = Double 0 0"


text \<open>A reply that wraps an object in prose and a code fence.\<close>

definition fencedReply :: string where
  "fencedReply = ''Sure! ```json'' @ [CHR 0x0A] @ ''{'' @ [CHR 0x22] @ ''a'' @ [CHR 0x22] @ '':1}''
                   @ [CHR 0x0A] @ ''```''"


section \<open>Arithmetic of the rotation\<close>

lemma js_rem_nonneg: "0 \<le> a \<Longrightarrow> 0 < b \<Longrightarrow> js_rem a b = a mod b"
  by (cases "a = 0") (simp_all add: js_rem_def)

lemma js_rem_bounds: "0 < b \<Longrightarrow> - b < js_rem a b \<and> js_rem a b < b"
proof -
  assume b: "0 < b"
  have m: "0 \<le> \<bar>a\<bar> mod b \<and> \<bar>a\<bar> mod b < b"
    using b by simp
  have r: "js_rem a b = sgn a * (\<bar>a\<bar> mod b)"
    using b by (simp add: js_rem_def)
  show ?thesis
  proof (cases "a < 0")
    case True
    then have "js_rem a b = - (\<bar>a\<bar> mod b)"
      using r by simp
    then show ?thesis using m by linarith
  next
    case False
    then have "js_rem a b = 0 \<or> js_rem a b = \<bar>a\<bar> mod b"
      using r by (cases "a = 0") simp_all
    then show ?thesis using m b by linarith
  qed
qed

lemma js_rem_cong: "0 < b \<Longrightarrow> js_rem a b mod b = a mod b"
proof -
  assume b: "0 < b"
  show ?thesis
  proof (cases "a < 0")
    case False
    then show ?thesis using b by (simp add: js_rem_nonneg)
  next
    case True
    then have "js_rem a b = - ((- a) mod b)"
      using b by (simp add: js_rem_def)
    then have "js_rem a b mod b = (- ((- a) mod b)) mod b"
      by simp
    also have "\<dots> = (- (- a)) mod b"
      by (rule mod_minus_eq)
    finally show ?thesis by simp
  qed
qed

lemma js_proper_modulo: "0 < b \<Longrightarrow> js_rem (js_rem a b + b) b = a mod b"
proof -
  assume b: "0 < b"
  have "0 \<le> js_rem a b + b"
    using js_rem_bounds [OF b, of a] by simp
  then have "js_rem (js_rem a b + b) b = (js_rem a b + b) mod b"
    using b by (simp add: js_rem_nonneg)
  also have "\<dots> = js_rem a b mod b"
    by simp
  also have "\<dots> = a mod b"
    using b by (rule js_rem_cong)
  finally show ?thesis .
qed

lemma orderLoop_map:
  "0 \<le> start \<Longrightarrow> 0 < count \<Longrightarrow>
   orderLoop start count k = map (\<lambda>i. (start + int i) mod count) [0..<k]"
  by (induction k) (simp_all add: js_rem_nonneg)

text \<open>Adding a fixed offset modulo \<open>n\<close> permutes the residues.\<close>

lemma rotation_inj:
  assumes "i < n" "j < n" "(s + int i) mod int n = (s + int j) mod int n"
  shows "i = j"
proof -
  have "(s + int i - (s + int j)) mod int n = 0"
    using assms(3) by (simp add: mod_eq_dvd_iff)
  then have d: "int n dvd (int i - int j)"
    by (simp add: mod_eq_0_iff_dvd)
  have "\<bar>int i - int j\<bar> < int n"
    using assms(1,2) by linarith
  with d have "int i - int j = 0"
    using dvd_imp_le_int [of "int i - int j" "int n"] by fastforce
  then show ?thesis by simp
qed

lemma rotation_distinct: "distinct (map (\<lambda>i. (s + int i) mod int n) [0..<n])"
  by (auto simp: distinct_map inj_on_def dest: rotation_inj)

lemma rotation_set:
  assumes "0 < n"
  shows "set (map (\<lambda>i. (s + int i) mod int n) [0..<n]) = {0..<int n}"
proof -
  let ?xs = "map (\<lambda>i. (s + int i) mod int n) [0..<n]"
  have sub: "set ?xs \<subseteq> {0..<int n}"
    using assms by auto
  have "card (set ?xs) = length ?xs"
    by (rule distinct_card) (rule rotation_distinct)
  then have "card (set ?xs) = card {0..<int n}"
    by simp
  with sub show ?thesis
    by (simp add: card_subset_eq)
qed


section \<open>Client selection: the properties\<close>

lemma normalize_Finite:
  "clients this \<noteq> [] \<Longrightarrow>
   normalizePreferredKeyIndex this (JNumber (Finite v)) = Some (v mod int (length (clients this)))"
  by (simp add: normalizePreferredKeyIndex_def hasAI_def js_proper_modulo)

lemma normalize_range:
  "normalizePreferredKeyIndex this p = Some q \<Longrightarrow> 0 \<le> q \<and> q < int (length (clients this))"
  by (auto simp: normalizePreferredKeyIndex_def hasAI_def js_proper_modulo Let_def
           split: if_splits jsnumber.splits jsvalue.splits)

lemma normalize_empty: "clients this = [] \<Longrightarrow> normalizePreferredKeyIndex this p = None"
  by (auto simp: normalizePreferredKeyIndex_def hasAI_def Let_def split: jsnumber.splits jsvalue.splits)

lemma getClientOrder_fst:
  assumes "clients this \<noteq> []"
  shows "fst (getClientOrder p this) =
         map (\<lambda>i. (startIndex this p + int i) mod int (length (clients this))) [0..<length (clients this)]"
proof (cases "normalizePreferredKeyIndex this p")
  case None
  then show ?thesis using assms
    by (simp add: getClientOrder_def startIndex_def Let_def js_rem_nonneg orderLoop_map zmod_int)
next
  case (Some q)
  then show ?thesis using assms normalize_range [OF Some]
    by (simp add: getClientOrder_def startIndex_def Let_def orderLoop_map)
qed

lemma getClientOrder_snd:
  assumes "clients this \<noteq> []"
  shows "snd (getClientOrder p this) =
         (if normalizePreferredKeyIndex this p = None
          then this\<lparr> nextClientIndex := (nextClientIndex this + 1) mod length (clients this) \<rparr>
          else this)"
proof -
  let ?n = "length (clients this)"
  have "js_rem (js_rem (int (nextClientIndex this)) (int ?n) + 1) (int ?n)
        = int ((nextClientIndex this + 1) mod ?n)"
    using assms by (simp add: js_rem_nonneg zmod_int mod_simps add.commute)
  then show ?thesis using assms
    by (simp add: getClientOrder_def Let_def)
qed

lemma unpinned_starts:
  "clients this \<noteq> [] \<Longrightarrow>
   map hd (unpinnedCalls k this) =
   map (\<lambda>j. (int (nextClientIndex this) + int j) mod int (length (clients this))) [0..<k]"
proof (induction k arbitrary: this)
  case 0
  then show ?case by simp
next
  case (Suc k)
  let ?n = "length (clients this)"
  obtain order this' where g: "getClientOrder JUndefined this = (order, this')"
    by (cases "getClientOrder JUndefined this")
  have o: "order = map (\<lambda>i. (startIndex this JUndefined + int i) mod int ?n) [0..<?n]"
    using getClientOrder_fst [OF Suc.prems, of JUndefined] g by simp
  have t: "this' = this\<lparr> nextClientIndex := (nextClientIndex this + 1) mod ?n \<rparr>"
    using getClientOrder_snd [OF Suc.prems, of JUndefined] g
    by (simp add: normalizePreferredKeyIndex_def)
  have n: "0 < ?n" using Suc.prems by simp
  have h: "hd order = int (nextClientIndex this) mod int ?n"
    using n by (simp add: o startIndex_def normalizePreferredKeyIndex_def hd_map upt_conv_Cons zmod_int)
  have ih: "map hd (unpinnedCalls k this') =
            map (\<lambda>j. (int (nextClientIndex this') + int j) mod int (length (clients this'))) [0..<k]"
    using Suc.IH [of this'] Suc.prems t by simp
  have step: "\<And>j. (int (nextClientIndex this') + int j) mod int ?n
                  = (int (nextClientIndex this) + int (Suc j)) mod int ?n"
    by (simp add: t zmod_int mod_simps add.commute add.left_commute)
  show ?case
    using g h ih step t by (simp add: map_upt_Suc del: upt_Suc)
qed


text \<open>
  C4. \<^verbatim>\<open>normalizePreferredKeyIndex\<close> returns null for an absent or null value, for a
  string that does not parse to a number, for a non-finite number, and on an empty pool.
  On a pool of \<open>N \<ge> 1\<close> clients and an integer \<open>v\<close> of either sign, the value it computes
  with the truncating remainder, \<^verbatim>\<open>((v % N) + N) % N\<close>, is the mathematical residue of
  \<open>v\<close> modulo \<open>N\<close>: it lies in \<open>[0, N)\<close> and differs from \<open>v\<close> by a multiple of \<open>N\<close>.
\<close>

theorem normalizePreferredKeyIndex_modulo:
  "normalizePreferredKeyIndex this JUndefined = None \<and>
   normalizePreferredKeyIndex this JNull = None \<and>
   (parseInt10 s = NaN \<longrightarrow> normalizePreferredKeyIndex this (JString s) = None) \<and>
   normalizePreferredKeyIndex this (JNumber NaN) = None \<and>
   normalizePreferredKeyIndex this (JNumber PosInfinity) = None \<and>
   normalizePreferredKeyIndex this (JNumber NegInfinity) = None \<and>
   (clients this = [] \<longrightarrow> normalizePreferredKeyIndex this x = None) \<and>
   (clients this \<noteq> [] \<longrightarrow>
      normalizePreferredKeyIndex this (JNumber (Finite v))
        = Some (js_rem (js_rem v (int (length (clients this))) + int (length (clients this)))
                  (int (length (clients this)))) \<and>
      normalizePreferredKeyIndex this (JNumber (Finite v)) = Some (v mod int (length (clients this))) \<and>
      0 \<le> v mod int (length (clients this)) \<and>
      v mod int (length (clients this)) < int (length (clients this)) \<and>
      int (length (clients this)) dvd (v - v mod int (length (clients this))))"
proof -
  have a: "normalizePreferredKeyIndex this JUndefined = None"
    and b: "normalizePreferredKeyIndex this JNull = None"
    by (simp_all add: normalizePreferredKeyIndex_def)
  have c: "parseInt10 s = NaN \<longrightarrow> normalizePreferredKeyIndex this (JString s) = None"
    by (simp add: normalizePreferredKeyIndex_def)
  have d: "normalizePreferredKeyIndex this (JNumber NaN) = None"
    and e: "normalizePreferredKeyIndex this (JNumber PosInfinity) = None"
    and f: "normalizePreferredKeyIndex this (JNumber NegInfinity) = None"
    by (simp_all add: normalizePreferredKeyIndex_def)
  have g: "clients this = [] \<longrightarrow> normalizePreferredKeyIndex this x = None"
    by (simp add: normalize_empty)
  have h: "clients this \<noteq> [] \<longrightarrow>
      normalizePreferredKeyIndex this (JNumber (Finite v))
        = Some (js_rem (js_rem v (int (length (clients this))) + int (length (clients this)))
                  (int (length (clients this)))) \<and>
      normalizePreferredKeyIndex this (JNumber (Finite v)) = Some (v mod int (length (clients this))) \<and>
      0 \<le> v mod int (length (clients this)) \<and>
      v mod int (length (clients this)) < int (length (clients this)) \<and>
      int (length (clients this)) dvd (v - v mod int (length (clients this)))"
    by (simp add: normalize_Finite js_proper_modulo dvd_minus_mod)
  from a b c d e f g h show ?thesis by blast
qed

theorem normalizePreferredKeyIndex_modulo_witness:
  "parseInt10 ''abc'' = NaN \<and>
   normalizePreferredKeyIndex pool3 (JString ''abc'') = None \<and>
   clients (pool3\<lparr> clients := [] \<rparr>) = [] \<and>
   normalizePreferredKeyIndex (pool3\<lparr> clients := [] \<rparr>) (JNumber (Finite 7)) = None \<and>
   clients pool3 \<noteq> [] \<and>
   normalizePreferredKeyIndex pool3 (JNumber (Finite (- 1))) = Some 2"
proof -
  have p: "parseInt10 ''abc'' = NaN"
    by (simp add: parseInt10_def trimStart_def isWhiteSpace_def isDigit_def)
  have n: "clients pool3 \<noteq> []"
    by (simp add: pool3_def)
  have l: "int (length (clients pool3)) = 3"
    by (simp add: pool3_def)
  have e: "clients (pool3\<lparr> clients := [] \<rparr>) = []"
    by simp
  show ?thesis
    using p n l e
      normalizePreferredKeyIndex_modulo [of pool3 "''abc''" "JNumber (Finite 7)" "- 1"]
      normalizePreferredKeyIndex_modulo [of "pool3\<lparr> clients := [] \<rparr>" "''abc''" "JNumber (Finite 7)" "- 1"]
    by (simp add: js_rem_def)
qed

text \<open>
  C3. On a pool of \<open>N \<ge> 1\<close> clients \<^verbatim>\<open>getClientOrder\<close> returns the \<open>N\<close> indices
  \<open>start, start + 1, ..., start + N - 1\<close> reduced modulo \<open>N\<close>: \<open>N\<close> distinct indices that
  cover \<open>[0, N)\<close>. Without a usable preferred index the start is the cursor (reduced
  modulo \<open>N\<close>, so the cursor itself when it is below \<open>N\<close>) and the cursor becomes its
  successor modulo \<open>N\<close>; \<open>N\<close> consecutive such calls start at \<open>N\<close> distinct indices that
  cover \<open>[0, N)\<close>. With a preferred index that normalises to \<open>q\<close> the start is \<open>q\<close> and the
  service is left as it was.
\<close>

theorem getClientOrder_cyclic_order:
  assumes "clients this \<noteq> []"
  shows
    "fst (getClientOrder p this)
       = map (\<lambda>i. (startIndex this p + int i) mod int (length (clients this)))
           [0..<length (clients this)] \<and>
     length (fst (getClientOrder p this)) = length (clients this) \<and>
     distinct (fst (getClientOrder p this)) \<and>
     set (fst (getClientOrder p this)) = {0..<int (length (clients this))} \<and>
     (normalizePreferredKeyIndex this p = None \<longrightarrow>
        startIndex this p = int (nextClientIndex this mod length (clients this)) \<and>
        (nextClientIndex this < length (clients this) \<longrightarrow>
           startIndex this p = int (nextClientIndex this)) \<and>
        snd (getClientOrder p this)
          = this\<lparr> nextClientIndex := (nextClientIndex this + 1) mod length (clients this) \<rparr>) \<and>
     (\<forall>q. normalizePreferredKeyIndex this p = Some q \<longrightarrow>
        startIndex this p = q \<and> snd (getClientOrder p this) = this) \<and>
     distinct (map hd (unpinnedCalls (length (clients this)) this)) \<and>
     set (map hd (unpinnedCalls (length (clients this)) this)) = {0..<int (length (clients this))}"
proof -
  let ?n = "length (clients this)"
  have n: "0 < ?n" using assms by simp
  have o: "fst (getClientOrder p this) = map (\<lambda>i. (startIndex this p + int i) mod int ?n) [0..<?n]"
    by (rule getClientOrder_fst [OF assms])
  have l: "length (fst (getClientOrder p this)) = ?n"
    by (simp add: o)
  have d: "distinct (fst (getClientOrder p this))"
    unfolding o by (rule rotation_distinct)
  have s: "set (fst (getClientOrder p this)) = {0..<int ?n}"
    unfolding o by (rule rotation_set [OF n])
  have u: "normalizePreferredKeyIndex this p = None \<longrightarrow>
        startIndex this p = int (nextClientIndex this mod ?n) \<and>
        (nextClientIndex this < ?n \<longrightarrow> startIndex this p = int (nextClientIndex this)) \<and>
        snd (getClientOrder p this) = this\<lparr> nextClientIndex := (nextClientIndex this + 1) mod ?n \<rparr>"
    by (simp add: startIndex_def getClientOrder_snd [OF assms])
  have q: "\<forall>q. normalizePreferredKeyIndex this p = Some q \<longrightarrow>
        startIndex this p = q \<and> snd (getClientOrder p this) = this"
    by (simp add: startIndex_def getClientOrder_snd [OF assms])
  have c: "map hd (unpinnedCalls ?n this)
           = map (\<lambda>j. (int (nextClientIndex this) + int j) mod int ?n) [0..<?n]"
    by (rule unpinned_starts [OF assms])
  have cd: "distinct (map hd (unpinnedCalls ?n this))"
    unfolding c by (rule rotation_distinct)
  have cs: "set (map hd (unpinnedCalls ?n this)) = {0..<int ?n}"
    unfolding c by (rule rotation_set [OF n])
  from o l d s u q cd cs show ?thesis by blast
qed

theorem getClientOrder_cyclic_order_witness:
  "clients pool3 \<noteq> [] \<and>
   normalizePreferredKeyIndex pool3 JUndefined = None \<and>
   fst (getClientOrder JUndefined pool3) = [1, 2, 0] \<and>
   snd (getClientOrder JUndefined pool3) = pool3\<lparr> nextClientIndex := 2 \<rparr> \<and>
   map hd (unpinnedCalls 3 pool3) = [1, 2, 0] \<and>
   normalizePreferredKeyIndex pool3 (JNumber (Finite (- 1))) = Some 2 \<and>
   fst (getClientOrder (JNumber (Finite (- 1))) pool3) = [2, 0, 1] \<and>
   snd (getClientOrder (JNumber (Finite (- 1))) pool3) = pool3"
proof -
  have n: "clients pool3 \<noteq> []"
    by (simp add: pool3_def)
  have l: "length (clients pool3) = 3" and c: "nextClientIndex pool3 = 1"
    by (simp_all add: pool3_def)
  have u: "normalizePreferredKeyIndex pool3 JUndefined = None"
    by (simp add: normalizePreferredKeyIndex_def)
  have m: "normalizePreferredKeyIndex pool3 (JNumber (Finite (- 1))) = Some 2"
    using n by (simp add: normalize_Finite l)
  have su: "startIndex pool3 JUndefined = 1"
    by (simp add: startIndex_def u l c)
  have sm: "startIndex pool3 (JNumber (Finite (- 1))) = 2"
    by (simp add: startIndex_def m)
  have r: "[0..<3] = [0, 1, 2]"
    by (simp add: upt_rec)
  have hs: "map hd (unpinnedCalls 3 pool3) = [1, 2, 0]"
    using unpinned_starts [OF n, of 3] by (simp add: l c r)
  show ?thesis
    using n u m hs
      getClientOrder_cyclic_order [OF n, of JUndefined]
      getClientOrder_cyclic_order [OF n, of "JNumber (Finite (- 1))"]
    by (simp add: l c su sm r)
qed


section \<open>Rounding to doubles\<close>

lemma p2_pos: "0 < p2 e"
  by (simp add: p2_def)

lemma p2_add: "p2 (a + b) = p2 a * p2 b"
  by (simp add: p2_def powr_add)

lemma p2_nat: "p2 (int k) = 2 ^ k"
  by (simp add: p2_def powr_realpow)

lemma p2_less: "p2 a < p2 b \<longleftrightarrow> a < b"
  by (simp add: p2_def)

lemma p2_le: "p2 a \<le> p2 b \<longleftrightarrow> a \<le> b"
  by (simp add: p2_def)

lemma valueOf_p2: "valueOf (Double m e) = of_int m * p2 e"
proof (cases "0 \<le> e")
  case True
  then have "p2 e = 2 ^ nat e" using p2_nat [of "nat e"] by simp
  then show ?thesis using True by (simp add: valueOf_def)
next
  case False
  then have "p2 (- e) = 2 ^ nat (- e)" using p2_nat [of "nat (- e)"] by simp
  moreover have "p2 e * p2 (- e) = 1" using p2_add [of e "- e"] by (simp add: p2_def)
  ultimately have "p2 e = 1 / 2 ^ nat (- e)"
    by (simp add: field_simps)
  then show ?thesis using False by (simp add: valueOf_def)
qed

lemma bitlen_bounds: "0 < m \<Longrightarrow> 2 ^ (bitlen m - 1) \<le> m \<and> m < 2 ^ bitlen m"
proof (induction m rule: bitlen.induct)
  case (1 m)
  show ?case
  proof (cases "m = 1")
    case True
    then show ?thesis by (simp add: bitlen.simps [of 1] bitlen.simps [of 0])
  next
    case False
    then have h: "0 < m div 2" using "1.prems" by linarith
    then have ih: "2 ^ (bitlen (m div 2) - 1) \<le> m div 2 \<and> m div 2 < 2 ^ bitlen (m div 2)"
      using "1.IH" "1.prems" by simp
    have b: "bitlen m = Suc (bitlen (m div 2))"
      using "1.prems" by (subst bitlen.simps) simp
    have p: "0 < bitlen (m div 2)"
      using h by (subst bitlen.simps) simp
    then have e: "(2::int) ^ bitlen (m div 2) = 2 * 2 ^ (bitlen (m div 2) - 1)"
      by (cases "bitlen (m div 2)") simp_all
    show ?thesis using ih b e by (simp) linarith
  qed
qed

lemma roundHalfEven_range:
  "m div 2 ^ k \<le> roundHalfEven m k \<and> roundHalfEven m k \<le> m div 2 ^ k + 1 \<and>
   (m mod 2 ^ k = 0 \<longrightarrow> roundHalfEven m k = m div 2 ^ k)"
  by (simp add: roundHalfEven_def Let_def)

lemma roundHalfEven_le:
  assumes "m \<le> N * 2 ^ k"
  shows "roundHalfEven m k \<le> N"
proof -
  have q: "m div 2 ^ k \<le> N"
  proof -
    have "m div 2 ^ k \<le> (N * 2 ^ k) div 2 ^ k"
      using assms by (intro zdiv_mono1) simp_all
    then show ?thesis by simp
  qed
  show ?thesis
  proof (cases "m div 2 ^ k = N")
    case True
    have "m = (m div 2 ^ k) * 2 ^ k + m mod 2 ^ k"
      by (rule div_mult_mod_eq [symmetric])
    then have "m = N * 2 ^ k + m mod 2 ^ k" using True by simp
    then have "m mod 2 ^ k \<le> 0" using assms by linarith
    moreover have "0 \<le> m mod 2 ^ k" by simp
    ultimately have "m mod 2 ^ k = 0" by linarith
    then show ?thesis using roundHalfEven_range [of m k] True by simp
  next
    case False
    then show ?thesis using q roundHalfEven_range [of m k] by linarith
  qed
qed

lemma roundHalfEven_ge:
  assumes "N * 2 ^ k \<le> m"
  shows "N \<le> roundHalfEven m k"
proof -
  have "(N * 2 ^ k) div 2 ^ k \<le> m div 2 ^ k"
    using assms by (intro zdiv_mono1) simp_all
  then have "N \<le> m div 2 ^ k" by simp
  then show ?thesis using roundHalfEven_range [of m k] by linarith
qed

lemma roundToDouble_le:
  assumes m: "0 \<le> m" and h: "h < 2 ^ 53"
    and le: "valueOf (Double m e) \<le> valueOf (Double h eh)"
  shows "valueOf (roundToDouble m e) \<le> valueOf (Double h eh)"
proof (cases "bitlen \<bar>m\<bar> \<le> 53")
  case True
  then show ?thesis using le by (simp add: roundToDouble_def)
next
  case False
  define n where "n = bitlen m"
  define k where "k = n - 53"
  have n: "53 < n" using False m by (simp add: n_def)
  have mp: "0 < m" using n m by (cases "m = 0") (simp_all add: n_def bitlen.simps [of 0])
  have r: "roundToDouble m e = Double (roundHalfEven m k) (e + int k)"
    using False m by (simp add: roundToDouble_def n_def k_def Let_def)
  have lo: "2 ^ (n - 1) \<le> m" using bitlen_bounds [OF mp] by (simp add: n_def)
  have x: "of_int m * p2 e \<le> of_int h * p2 eh"
    using le by (simp add: valueOf_p2)
  have "p2 (int (n - 1)) * p2 e \<le> of_int m * p2 e"
    using lo p2_pos [of e] by (simp add: p2_nat)
  also have "\<dots> \<le> of_int h * p2 eh" by (rule x)
  also have "\<dots> < p2 53 * p2 eh"
  proof -
    have "real_of_int h < 2 ^ 53" using h by (metis of_int_less_iff of_int_numeral of_int_power)
    then show ?thesis using p2_pos [of eh] p2_nat [of 53] by simp
  qed
  finally have "p2 (int (n - 1) + e) < p2 (53 + eh)"
    by (simp add: p2_add)
  then have g: "e + int k \<le> eh"
    using n by (simp add: p2_less k_def)
  define d where "d = nat (eh - (e + int k))"
  define N where "N = h * 2 ^ d"
  have eh: "eh = e + int k + int d" using g by (simp add: d_def)
  have H: "of_int h * p2 eh = of_int N * p2 (e + int k)"
    by (simp add: eh p2_add p2_nat N_def)
  have "of_int m * p2 e \<le> of_int (N * 2 ^ k) * p2 e"
    using x H by (simp add: p2_add p2_nat mult_ac)
  then have "real_of_int m \<le> of_int (N * 2 ^ k)"
    using p2_pos [of e] by simp
  then have "m \<le> N * 2 ^ k" by linarith
  then have "roundHalfEven m k \<le> N" by (rule roundHalfEven_le)
  then have "of_int (roundHalfEven m k) * p2 (e + int k) \<le> of_int N * p2 (e + int k)"
    using p2_pos [of "e + int k"] by simp
  then show ?thesis by (simp add: r valueOf_p2 H)
qed

lemma roundToDouble_ge:
  assumes m: "0 \<le> m" and l: "l < 2 ^ 53"
    and le: "valueOf (Double l el) \<le> valueOf (Double m e)"
  shows "valueOf (Double l el) \<le> valueOf (roundToDouble m e)"
proof (cases "bitlen \<bar>m\<bar> \<le> 53")
  case True
  then show ?thesis using le by (simp add: roundToDouble_def)
next
  case False
  define n where "n = bitlen m"
  define k where "k = n - 53"
  have n: "53 < n" using False m by (simp add: n_def)
  have mp: "0 < m" using n m by (cases "m = 0") (simp_all add: n_def bitlen.simps [of 0])
  have r: "roundToDouble m e = Double (roundHalfEven m k) (e + int k)"
    using False m by (simp add: roundToDouble_def n_def k_def Let_def)
  have lo: "2 ^ (n - 1) \<le> m" using bitlen_bounds [OF mp] by (simp add: n_def)
  have x: "of_int l * p2 el \<le> of_int m * p2 e"
    using le by (simp add: valueOf_p2)
  show ?thesis
  proof (cases "e + int k \<le> el")
    case True
    define d where "d = nat (el - (e + int k))"
    define N where "N = l * 2 ^ d"
    have el: "el = e + int k + int d" using True by (simp add: d_def)
    have L: "of_int l * p2 el = of_int N * p2 (e + int k)"
      by (simp add: el p2_add p2_nat N_def)
    have "of_int (N * 2 ^ k) * p2 e \<le> of_int m * p2 e"
      using x L by (simp add: p2_add p2_nat mult_ac)
    then have "real_of_int (N * 2 ^ k) \<le> of_int m"
      using p2_pos [of e] by simp
    then have "N * 2 ^ k \<le> m" by linarith
    then have "N \<le> roundHalfEven m k" by (rule roundHalfEven_ge)
    then have "of_int N * p2 (e + int k) \<le> of_int (roundHalfEven m k) * p2 (e + int k)"
      using p2_pos [of "e + int k"] by simp
    then show ?thesis by (simp add: r valueOf_p2 L)
  next
    case False
    have nk: "n - 1 = 52 + k" using n by (simp add: k_def)
    have "(2::int) ^ (n - 1) = 2 ^ 52 * 2 ^ k"
      unfolding nk by (rule power_add)
    then have "(2::int) ^ 52 * 2 ^ k \<le> m" using lo by (simp only:)
    then have q: "2 ^ 52 \<le> roundHalfEven m k" by (rule roundHalfEven_ge)
    have "of_int l * p2 el \<le> p2 53 * p2 el"
    proof -
      have "real_of_int l \<le> 2 ^ 53" using l by (metis less_imp_le of_int_le_iff of_int_numeral of_int_power)
      then show ?thesis using p2_pos [of el] p2_nat [of 53] by simp
    qed
    also have "\<dots> = p2 52 * p2 (el + 1)"
      using p2_add [of 52 "el + 1"] p2_add [of 53 el] by (simp add: add.commute add.left_commute)
    also have "\<dots> \<le> p2 52 * p2 (e + int k)"
      using False p2_pos [of 52] by (simp add: p2_le)
    also have "\<dots> \<le> of_int (roundHalfEven m k) * p2 (e + int k)"
    proof -
      have "(2::real) ^ 52 \<le> of_int (roundHalfEven m k)"
        using q by (metis of_int_le_iff of_int_numeral of_int_power)
      then show ?thesis using p2_pos [of "e + int k"] p2_nat [of 52] by simp
    qed
    finally show ?thesis by (simp add: r valueOf_p2)
  qed
qed

lemma dadd_exact:
  "valueOf (Double (a * 2 ^ nat (ea - min ea eb) + b * 2 ^ nat (eb - min ea eb)) (min ea eb))
     = valueOf (Double a ea) + valueOf (Double b eb)"
proof -
  let ?e = "min ea eb"
  have a: "p2 ea = 2 ^ nat (ea - ?e) * p2 ?e"
    using p2_add [of "ea - ?e" ?e] p2_nat [of "nat (ea - ?e)"] by simp
  have b: "p2 eb = 2 ^ nat (eb - ?e) * p2 ?e"
    using p2_add [of "eb - ?e" ?e] p2_nat [of "nat (eb - ?e)"] by simp
  have "valueOf (Double a ea) + valueOf (Double b eb)
        = of_int a * (2 ^ nat (ea - ?e) * p2 ?e) + of_int b * (2 ^ nat (eb - ?e) * p2 ?e)"
    using a b by (simp add: valueOf_p2)
  then show ?thesis
    by (simp add: valueOf_p2 algebra_simps)
qed

lemma bitlen_small: "0 \<le> m \<Longrightarrow> m < 2 ^ 53 \<Longrightarrow> bitlen m \<le> 53"
proof (cases "m = 0")
  case True
  then show ?thesis by (simp add: bitlen.simps [of 0])
next
  case False
  assume "0 \<le> m" "m < 2 ^ 53"
  then have "0 < m" using False by simp
  then have "(2::int) ^ (bitlen m - 1) < 2 ^ 53"
    using bitlen_bounds [of m] \<open>m < 2 ^ 53\<close> by linarith
  then have "bitlen m - 1 < 53"
    by (rule power_less_imp_less_exp [rotated]) simp
  then show ?thesis by simp
qed

lemma valueOf_nonneg: "0 \<le> valueOf (Double m e) \<longleftrightarrow> 0 \<le> m"
  using p2_pos [of e] by (simp add: valueOf_p2 zero_le_mult_iff)

lemma base_delay: "dmul (Double 1 (int attempt)) (Double 1000 0) = Double 1000 (int attempt)"
  using bitlen_small [of 1000] by (simp add: dmul_def roundToDouble_def Let_def)

lemma jitter_bounds:
  assumes "0 \<le> valueOf u" "valueOf u < 1"
  shows "0 \<le> valueOf (dmul u (Double 500 0)) \<and> valueOf (dmul u (Double 500 0)) \<le> 500"
proof -
  obtain m e where u: "u = Double m e" by (cases u)
  have m: "0 \<le> m" using assms(1) by (simp add: u valueOf_nonneg)
  have j: "dmul u (Double 500 0) = roundToDouble (m * 500) e"
    by (simp add: u dmul_def)
  have x: "valueOf (Double (m * 500) e) = 500 * valueOf u"
    by (simp add: u valueOf_p2)
  have m5: "0 \<le> m * 500" using m by simp
  have z: "valueOf (Double 0 0) = 0" and f: "valueOf (Double 500 0) = 500"
    by (simp_all add: valueOf_def)
  have x0: "valueOf (Double 0 0) \<le> valueOf (Double (m * 500) e)"
    unfolding z x using assms(1) by simp
  have x1: "valueOf (Double (m * 500) e) \<le> valueOf (Double 500 0)"
    unfolding f x using assms(2) by simp
  have lo: "valueOf (Double 0 0) \<le> valueOf (roundToDouble (m * 500) e)"
    by (rule roundToDouble_ge [OF m5 _ x0]) simp
  have hi: "valueOf (roundToDouble (m * 500) e) \<le> valueOf (Double 500 0)"
    by (rule roundToDouble_le [OF m5 _ x1]) simp
  show ?thesis using lo hi by (simp add: j z f)
qed

lemma sum_bounds:
  assumes j: "0 \<le> valueOf jitter" "valueOf jitter \<le> 500"
  shows "2 ^ attempt * 1000 \<le> valueOf (dadd (Double 1000 (int attempt)) jitter) \<and>
         (attempt \<le> 2 \<longrightarrow> valueOf (dadd (Double 1000 (int attempt)) jitter) \<le> 2 ^ attempt * 1000 + 500)"
proof -
  obtain b eb where jt: "jitter = Double b eb" by (cases jitter)
  have b: "0 \<le> b" using j(1) by (simp add: jt valueOf_nonneg)
  let ?e = "min (int attempt) eb"
  let ?M = "1000 * 2 ^ nat (int attempt - ?e) + b * 2 ^ nat (eb - ?e)"
  have s: "dadd (Double 1000 (int attempt)) jitter = roundToDouble ?M ?e"
    by (simp add: jt dadd_def Let_def)
  have M: "0 \<le> ?M" using b by simp
  have base: "valueOf (Double 1000 (int attempt)) = 2 ^ attempt * 1000"
    by (simp add: valueOf_def)
  have x: "valueOf (Double ?M ?e) = 2 ^ attempt * 1000 + valueOf jitter"
    using dadd_exact [of 1000 "int attempt" eb b] by (simp add: jt base)
  have x0: "valueOf (Double 1000 (int attempt)) \<le> valueOf (Double ?M ?e)"
    unfolding x base using j(1) by simp
  have lo: "valueOf (Double 1000 (int attempt)) \<le> valueOf (roundToDouble ?M ?e)"
    by (rule roundToDouble_ge [OF M _ x0]) simp
  have hi: "attempt \<le> 2 \<longrightarrow> valueOf (roundToDouble ?M ?e) \<le> 2 ^ attempt * 1000 + 500"
  proof
    assume a: "attempt \<le> 2"
    then have "(2::int) ^ attempt \<le> 2 ^ 2"
      by (intro power_increasing) simp_all
    then have h: "(2::int) ^ attempt * 1000 + 500 < 2 ^ 53" by simp
    have hv: "valueOf (Double (2 ^ attempt * 1000 + 500) 0) = 2 ^ attempt * 1000 + 500"
      by (simp add: valueOf_def)
    have x1: "valueOf (Double ?M ?e) \<le> valueOf (Double (2 ^ attempt * 1000 + 500) 0)"
      unfolding x hv using j(2) by simp
    show "valueOf (roundToDouble ?M ?e) \<le> 2 ^ attempt * 1000 + 500"
      using roundToDouble_le [OF M h x1] by (simp only: hv)
  qed
  show ?thesis using lo hi by (simp add: s base)
qed

lemma backoffDelay_bounds:
  assumes "0 \<le> valueOf u" "valueOf u < 1"
  shows "min 8000 (2 ^ attempt * 1000) \<le> backoffDelay attempt u \<and>
         backoffDelay attempt u \<le> min 8000 (2 ^ attempt * 1000 + 500) \<and>
         1000 \<le> backoffDelay 0 u \<and> backoffDelay 0 u \<le> 1500"
proof -
  note jb = jitter_bounds [OF assms]
  have gen: "\<And>a. min 8000 (2 ^ a * 1000) \<le> backoffDelay a u \<and>
                 backoffDelay a u \<le> min 8000 (2 ^ a * 1000 + 500)"
  proof -
    fix a
    let ?s = "valueOf (dadd (Double 1000 (int a)) (dmul u (Double 500 0)))"
    have d: "backoffDelay a u = min 8000 ?s"
      by (simp add: backoffDelay_def base_delay)
    have sb: "2 ^ a * 1000 \<le> ?s \<and> (a \<le> 2 \<longrightarrow> ?s \<le> 2 ^ a * 1000 + 500)"
      using sum_bounds [of "dmul u (Double 500 0)" a] jb by simp
    have lo: "min 8000 (2 ^ a * 1000) \<le> min 8000 ?s"
      using sb by (simp add: min_def)
    have hi: "min 8000 ?s \<le> min 8000 (2 ^ a * 1000 + 500)"
    proof (cases "a \<le> 2")
      case True
      then show ?thesis using sb by (simp add: min_def)
    next
      case False
      then have "(2::real) ^ 3 \<le> 2 ^ a"
        by (intro power_increasing) simp_all
      then have "(8000::real) \<le> 2 ^ a * 1000 + 500" by simp
      then show ?thesis by (simp add: min_def)
    qed
    show "min 8000 (2 ^ a * 1000) \<le> backoffDelay a u \<and>
          backoffDelay a u \<le> min 8000 (2 ^ a * 1000 + 500)"
      using lo hi by (simp add: d)
  qed
  show ?thesis using gen [of attempt] gen [of 0] by simp
qed


lemma bitlen_le: "0 \<le> m \<Longrightarrow> m < 2 ^ j \<Longrightarrow> bitlen m \<le> j"
proof (cases "m = 0")
  case True
  then show ?thesis by (simp add: bitlen.simps [of 0])
next
  case False
  assume "0 \<le> m" "m < 2 ^ j"
  then have "0 < m" using False by simp
  then have "(2::int) ^ (bitlen m - 1) < 2 ^ j"
    using bitlen_bounds [of m] \<open>m < 2 ^ j\<close> by linarith
  then have "bitlen m - 1 < j"
    by (rule power_less_imp_less_exp [rotated]) simp
  then show ?thesis by simp
qed

lemma roundHalfEven_half:
  assumes "0 < k"
  shows "roundHalfEven m k * 2 ^ k \<le> m + 2 ^ (k - 1)"
proof -
  let ?q = "m div 2 ^ k" and ?r = "m mod 2 ^ k"
  have m: "m = ?q * 2 ^ k + ?r" by (rule div_mult_mod_eq [symmetric])
  have r0: "0 \<le> ?r" by simp
  have p: "(2::int) ^ k = 2 * 2 ^ (k - 1)"
    using assms by (cases k) simp_all
  have h: "0 \<le> (2::int) ^ (k - 1)" by simp
  show ?thesis
  proof (cases "roundHalfEven m k = ?q")
    case True
    have "?q * 2 ^ k \<le> m" using m r0 by linarith
    then have "?q * 2 ^ k \<le> m + 2 ^ (k - 1)" using h by linarith
    then show ?thesis by (simp only: True)
  next
    case False
    then have up: "roundHalfEven m k = ?q + 1"
      by (simp add: roundHalfEven_def Let_def split: if_splits)
    have "\<not> 2 * ?r < 2 ^ k"
      using False by (auto simp: roundHalfEven_def Let_def)
    then have "2 ^ (k - 1) \<le> ?r" using p by linarith
    moreover have "(?q + 1) * 2 ^ k = ?q * 2 ^ k + 2 * 2 ^ (k - 1)"
      using p by (simp add: algebra_simps)
    ultimately have "(?q + 1) * 2 ^ k \<le> m + 2 ^ (k - 1)"
      using m by linarith
    then show ?thesis by (simp only: up)
  qed
qed

lemma jitter_less:
  assumes d: "isDouble u" and v: "0 \<le> valueOf u" "valueOf u < 1"
  shows "valueOf (dmul u (Double 500 0)) < 500"
proof -
  obtain m e where u: "u = Double m e" by (cases u)
  have m0: "0 \<le> m" using v(1) by (simp add: u valueOf_nonneg)
  have j: "dmul u (Double 500 0) = roundToDouble (m * 500) e"
    by (simp add: u dmul_def)
  have x: "valueOf (Double (m * 500) e) = 500 * valueOf u"
    by (simp add: u valueOf_p2)
  show ?thesis
  proof (cases "bitlen \<bar>m * 500\<bar> \<le> 53")
    case True
    then have "roundToDouble (m * 500) e = Double (m * 500) e"
      by (simp add: roundToDouble_def)
    then show ?thesis using v(2) by (simp add: j x)
  next
    case False
    define n where "n = bitlen (m * 500)"
    define k where "k = n - 53"
    have n: "53 < n" using False m0 by (simp add: n_def)
    have mp: "0 < m" using n m0 by (cases "m = 0") (simp_all add: n_def bitlen.simps [of 0])
    have r: "roundToDouble (m * 500) e = Double (roundHalfEven (m * 500) k) (e + int k)"
      using False m0 by (simp add: roundToDouble_def n_def k_def Let_def)
    have m53: "m < 2 ^ 53"
    proof -
      have "bitlen m \<le> 53" using d m0 by (simp add: isDouble_def u)
      then have "(2::int) ^ bitlen m \<le> 2 ^ 53" by (intro power_increasing) simp_all
      then show ?thesis using bitlen_bounds [OF mp] by linarith
    qed
    have "m * 500 < 2 ^ 53 * 2 ^ 9" using m53 mp by (simp add: mult_strict_mono)
    then have "m * 500 < 2 ^ 62" by simp
    then have "n \<le> 62" unfolding n_def using m0 by (intro bitlen_le) simp_all
    then have k9: "k \<le> 9" and k0: "0 < k" using n by (simp_all add: k_def)
    have "(2::int) ^ (k - 1) \<le> 2 ^ 8" using k9 by (intro power_increasing) simp_all
    then have half: "(2::int) ^ (k - 1) < 500" by simp
    have e0: "e < 0"
    proof (rule ccontr)
      assume "\<not> e < 0"
      then have "1 \<le> p2 e" using p2_le [of 0 e] by (simp add: p2_def)
      moreover have "1 \<le> real_of_int m" using mp by simp
      ultimately have "1 * 1 \<le> real_of_int m * p2 e"
        by (intro mult_mono) simp_all
      then show False using v(2) by (simp add: u valueOf_p2)
    qed
    have pe: "p2 e * 2 ^ nat (- e) = 1"
      using p2_add [of e "- e"] p2_nat [of "nat (- e)"] e0 by (simp add: p2_def)
    have "real_of_int m * p2 e < 1" using v(2) by (simp add: u valueOf_p2)
    then have "real_of_int m * p2 e < p2 e * 2 ^ nat (- e)" by (simp only: pe)
    then have "real_of_int m < 2 ^ nat (- e)"
      using p2_pos [of e] by (simp add: mult.commute)
    then have "m < 2 ^ nat (- e)"
      by (metis of_int_less_iff of_int_numeral of_int_power)
    then have "m + 1 \<le> 2 ^ nat (- e)" by simp
    then have "real_of_int (m + 1) \<le> 2 ^ nat (- e)"
      by (metis of_int_le_iff of_int_numeral of_int_power)
    then have "real_of_int (m + 1) * p2 e \<le> 2 ^ nat (- e) * p2 e"
      using p2_pos [of e] by (intro mult_right_mono) simp_all
    then have gap: "real_of_int m * p2 e + p2 e \<le> 1"
      using pe by (simp add: algebra_simps)
    have "roundHalfEven (m * 500) k * 2 ^ k \<le> m * 500 + 2 ^ (k - 1)"
      by (rule roundHalfEven_half [OF k0])
    then have "roundHalfEven (m * 500) k * 2 ^ k < m * 500 + 500"
      using half by linarith
    then have "real_of_int (roundHalfEven (m * 500) k * 2 ^ k) < real_of_int (m * 500 + 500)"
      by (simp only: of_int_less_iff)
    then have "real_of_int (roundHalfEven (m * 500) k * 2 ^ k) * p2 e
               < real_of_int (m * 500 + 500) * p2 e"
      using p2_pos [of e] by (intro mult_strict_right_mono) simp_all
    also have "\<dots> = 500 * (real_of_int m * p2 e + p2 e)"
      by (simp add: algebra_simps)
    also have "\<dots> \<le> 500" using gap by simp
    finally have "real_of_int (roundHalfEven (m * 500) k) * p2 (e + int k) < 500"
      by (simp add: p2_add p2_nat mult_ac)
    then show ?thesis by (simp add: j r valueOf_p2)
  qed
qed


section \<open>The retry loop: step rules and invariants\<close>

lemma tryClients_Return:
  "operation (js_index cs i) w = (Inr r, w') \<Longrightarrow>
   tryClients operation cs maxRetries attempt (i # rest) lastError w
     = (Return r, lastError, w', [Called i (Inr r)])"
  by simp

lemma tryClients_quota:
  "operation (js_index cs i) w = (Inl e, w') \<Longrightarrow> isQuotaExceeded429 e \<Longrightarrow>
   tryClients operation cs maxRetries attempt (i # rest) lastError w
     = (Throw quotaExceededError, Some e, w', [Called i (Inl e)])"
  by simp

lemma tryClients_continue:
  "operation (js_index cs i) w = (Inl e, w') \<Longrightarrow> \<not> isQuotaExceeded429 e \<Longrightarrow>
   isAuthError (getStatus e) \<or> getStatus e = Some 429 \<Longrightarrow>
   tryClients operation cs maxRetries attempt (i # rest) lastError w
     = emit (Called i (Inl e)) (tryClients operation cs maxRetries attempt rest (Some e) w')"
  by (auto simp: Let_def)

lemma transient_not_quota: "isTransient e \<Longrightarrow> \<not> isQuotaExceeded429 e"
  by (auto simp: isTransient_def isQuotaExceeded429_def Let_def)

lemma transient_facts:
  "isTransient e \<Longrightarrow> \<not> isAuthError (getStatus e) \<and> getStatus e \<noteq> Some 429 \<and> isRetryableStatus (getStatus e)"
  by (auto simp: isTransient_def isAuthError_def isRetryableStatus_def)

lemma tryClients_break:
  "operation (js_index cs i) w = (Inl e, w') \<Longrightarrow> isTransient e \<Longrightarrow> int attempt < maxRetries - 1 \<Longrightarrow>
   tryClients operation cs maxRetries attempt (i # rest) lastError w
     = (NextRound, Some e, w', [Called i (Inl e)])"
  using transient_not_quota [of e] transient_facts [of e] by (simp add: Let_def)

lemma tryClients_throw:
  "operation (js_index cs i) w = (Inl e, w') \<Longrightarrow> \<not> isQuotaExceeded429 e \<Longrightarrow>
   \<not> isAuthError (getStatus e) \<Longrightarrow> getStatus e \<noteq> Some 429 \<Longrightarrow>
   \<not> (isRetryableStatus (getStatus e) \<and> int attempt < maxRetries - 1) \<Longrightarrow>
   tryClients operation cs maxRetries attempt (i # rest) lastError w
     = (Throw e, Some e, w', [Called i (Inl e)])"
  by (simp add: Let_def)

lemma rounds_exhausted:
  "\<not> int attempt < maxRetries \<Longrightarrow>
   rounds operation rnd p maxRetries attempt lastError st = (Thrown (throwLast lastError), st, [])"
  by (subst rounds.simps) simp

lemma rounds_Return:
  "int attempt < maxRetries \<Longrightarrow> getClientOrder p (svc st) = (order, this') \<Longrightarrow>
   tryClients operation (clients this') maxRetries attempt order lastError (world st)
     = (Return r, lastError', w, evs) \<Longrightarrow>
   rounds operation rnd p maxRetries attempt lastError st
     = (Returned r, st\<lparr> svc := this', world := w \<rparr>, evs)"
  by (subst rounds.simps) simp

lemma rounds_Throw:
  "int attempt < maxRetries \<Longrightarrow> getClientOrder p (svc st) = (order, this') \<Longrightarrow>
   tryClients operation (clients this') maxRetries attempt order lastError (world st)
     = (Throw e, lastError', w, evs) \<Longrightarrow>
   rounds operation rnd p maxRetries attempt lastError st
     = (Thrown (ThrownError e), st\<lparr> svc := this', world := w \<rparr>, evs)"
  by (subst rounds.simps) simp

lemma rounds_backoff:
  "int attempt < maxRetries - 1 \<Longrightarrow> getClientOrder p (svc st) = (order, this') \<Longrightarrow>
   tryClients operation (clients this') maxRetries attempt order lastError (world st)
     = (NextRound, lastError', w, evs) \<Longrightarrow>
   rounds operation rnd p maxRetries attempt lastError st
     = before (evs @ [Slept (backoffDelay attempt (rnd (draws st)))])
         (rounds operation rnd p maxRetries (Suc attempt) lastError'
            (st\<lparr> svc := this', world := w, draws := Suc (draws st) \<rparr>))"
  by (subst rounds.simps) (simp add: Let_def)

lemma rounds_final:
  "int attempt < maxRetries \<Longrightarrow> \<not> int attempt < maxRetries - 1 \<Longrightarrow>
   getClientOrder p (svc st) = (order, this') \<Longrightarrow>
   tryClients operation (clients this') maxRetries attempt order lastError (world st)
     = (NextRound, lastError', w, evs) \<Longrightarrow>
   rounds operation rnd p maxRetries attempt lastError st
     = (Thrown (throwLast lastError'), st\<lparr> svc := this', world := w \<rparr>, evs)"
  by (subst rounds.simps) (simp add: rounds_exhausted before_def)

declare tryClients.simps(2) [simp del]

lemma tryClients_cases:
  assumes "tryClients operation cs maxRetries attempt (i # rest) lastError w = (x, lastError', w', evs)"
  obtains
    (success) r where "operation (js_index cs i) w = (Inr r, w')" "x = Return r"
      "lastError' = lastError" "evs = [Called i (Inr r)]"
  | (quota) e where "operation (js_index cs i) w = (Inl e, w')" "isQuotaExceeded429 e"
      "x = Throw quotaExceededError" "lastError' = Some e" "evs = [Called i (Inl e)]"
  | (continue) e w1 evs1 where "operation (js_index cs i) w = (Inl e, w1)" "\<not> isQuotaExceeded429 e"
      "isAuthError (getStatus e) \<or> getStatus e = Some 429"
      "tryClients operation cs maxRetries attempt rest (Some e) w1 = (x, lastError', w', evs1)"
      "evs = Called i (Inl e) # evs1"
  | (break) e where "operation (js_index cs i) w = (Inl e, w')" "\<not> isQuotaExceeded429 e"
      "\<not> isAuthError (getStatus e)" "getStatus e \<noteq> Some 429"
      "isRetryableStatus (getStatus e)" "int attempt < maxRetries - 1"
      "x = NextRound" "lastError' = Some e" "evs = [Called i (Inl e)]"
  | (throw) e where "operation (js_index cs i) w = (Inl e, w')" "\<not> isQuotaExceeded429 e"
      "\<not> isAuthError (getStatus e)" "getStatus e \<noteq> Some 429"
      "\<not> (isRetryableStatus (getStatus e) \<and> int attempt < maxRetries - 1)"
      "x = Throw e" "lastError' = Some e" "evs = [Called i (Inl e)]"
proof -
  obtain res w1 where o: "operation (js_index cs i) w = (res, w1)"
    by (cases "operation (js_index cs i) w")
  show thesis
  proof (cases res)
    case (Inr r)
    then have "tryClients operation cs maxRetries attempt (i # rest) lastError w
               = (Return r, lastError, w1, [Called i (Inr r)])"
      using o by (simp add: tryClients_Return)
    then show ?thesis using assms o Inr success [of r] by simp
  next
    case (Inl e)
    obtain x2 l2 w2 ev2 where r: "tryClients operation cs maxRetries attempt rest (Some e) w1 = (x2, l2, w2, ev2)"
      by (cases "tryClients operation cs maxRetries attempt rest (Some e) w1") auto
    consider "isQuotaExceeded429 e"
      | "\<not> isQuotaExceeded429 e" "isAuthError (getStatus e) \<or> getStatus e = Some 429"
      | "\<not> isQuotaExceeded429 e" "\<not> isAuthError (getStatus e)" "getStatus e \<noteq> Some 429"
        "isRetryableStatus (getStatus e) \<and> int attempt < maxRetries - 1"
      | "\<not> isQuotaExceeded429 e" "\<not> isAuthError (getStatus e)" "getStatus e \<noteq> Some 429"
        "\<not> (isRetryableStatus (getStatus e) \<and> int attempt < maxRetries - 1)"
      by blast
    then show ?thesis
    proof cases
      case 1
      then have "tryClients operation cs maxRetries attempt (i # rest) lastError w
                 = (Throw quotaExceededError, Some e, w1, [Called i (Inl e)])"
        using o Inl by (simp add: tryClients_quota)
      then show ?thesis using assms 1 o Inl quota [of e] by simp
    next
      case 2
      then have "tryClients operation cs maxRetries attempt (i # rest) lastError w
                 = emit (Called i (Inl e)) (x2, l2, w2, ev2)"
        using o Inl r by (simp add: tryClients_continue)
      then show ?thesis using assms 2 o Inl r continue [of e w1 ev2] by (simp add: emit_def)
    next
      case 3
      then have "tryClients operation cs maxRetries attempt (i # rest) lastError w
                 = (NextRound, Some e, w1, [Called i (Inl e)])"
        using o Inl by (simp add: tryClients.simps(2) Let_def)
      then show ?thesis using assms 3 o Inl break [of e] by simp
    next
      case 4
      then have "tryClients operation cs maxRetries attempt (i # rest) lastError w
                 = (Throw e, Some e, w1, [Called i (Inl e)])"
        using o Inl by (simp add: tryClients_throw)
      then show ?thesis using assms 4 o Inl throw [of e] by simp
    qed
  qed
qed

lemma tryClients_recorded:
  "tryClients operation cs maxRetries attempt order lastError w = (x, lastError', w', evs) \<Longrightarrow>
   lastError' = recorded lastError evs"
proof (induction order arbitrary: lastError w evs)
  case Nil
  then show ?case by simp
next
  case (Cons i rest)
  from Cons.prems show ?case
  proof (cases rule: tryClients_cases)
    case (continue e w1 evs1)
    then show ?thesis using Cons.IH [of "Some e" w1 evs1] by simp
  qed simp_all
qed

lemma tryClients_quota_last:
  "tryClients operation cs maxRetries attempt order lastError w = (x, lastError', w', evs) \<Longrightarrow>
   (\<forall>ev \<in> set (butlast evs). \<not> isQuotaFailure ev) \<and>
   (evs \<noteq> [] \<and> isQuotaFailure (last evs) \<longrightarrow> x = Throw quotaExceededError) \<and>
   (x = NextRound \<longrightarrow> (\<forall>ev \<in> set evs. \<not> isQuotaFailure ev))"
proof (induction order arbitrary: lastError w evs)
  case Nil
  then show ?case by simp
next
  case (Cons i rest)
  from Cons.prems show ?case
  proof (cases rule: tryClients_cases)
    case (continue e w1 evs1)
    then show ?thesis using Cons.IH [of "Some e" w1 evs1] by auto
  qed simp_all
qed

lemma tryClients_exit:
  "tryClients operation cs maxRetries attempt order lastError w = (x, lastError', w', evs) \<Longrightarrow>
   (\<forall>r. x = Return r \<longrightarrow> (\<exists>i. evs \<noteq> [] \<and> last evs = Called i (Inr r))) \<and>
   (\<forall>e. x = Throw e \<longrightarrow>
      (e = quotaExceededError \<and> (\<exists>i e'. evs \<noteq> [] \<and> last evs = Called i (Inl e') \<and> isQuotaExceeded429 e'))
      \<or> lastError' = Some e) \<and>
   (x = NextRound \<longrightarrow> order \<noteq> [] \<longrightarrow> lastError' \<noteq> None) \<and>
   (\<forall>d. Slept d \<notin> set evs)"
proof (induction order arbitrary: lastError w evs)
  case Nil
  then show ?case by simp
next
  case (Cons i rest)
  from Cons.prems show ?case
  proof (cases rule: tryClients_cases)
    case (continue e w1 evs1)
    have r: "lastError' = recorded (Some e) evs1"
      using tryClients_recorded [OF continue(4)] .
    have "recorded (Some e) evs1 \<noteq> None"
      by (induction "Some e" evs1 arbitrary: e rule: recorded.induct) auto
    then show ?thesis using continue Cons.IH [of "Some e" w1 evs1] r by auto
  qed simp_all
qed

lemma rounds_cases:
  assumes "rounds operation rnd p maxRetries attempt lastError st = (res, st', evs)"
  obtains
    (exhausted) "\<not> int attempt < maxRetries" "res = Thrown (throwLast lastError)" "st' = st" "evs = []"
  | (returned) order this' r lastError' w where
      "int attempt < maxRetries" "getClientOrder p (svc st) = (order, this')"
      "tryClients operation (clients this') maxRetries attempt order lastError (world st)
         = (Return r, lastError', w, evs)"
      "res = Returned r" "st' = st\<lparr> svc := this', world := w \<rparr>"
  | (thrown) order this' e lastError' w where
      "int attempt < maxRetries" "getClientOrder p (svc st) = (order, this')"
      "tryClients operation (clients this') maxRetries attempt order lastError (world st)
         = (Throw e, lastError', w, evs)"
      "res = Thrown (ThrownError e)" "st' = st\<lparr> svc := this', world := w \<rparr>"
  | (backoff) order this' lastError' w evs1 evs2 where
      "int attempt < maxRetries - 1" "getClientOrder p (svc st) = (order, this')"
      "tryClients operation (clients this') maxRetries attempt order lastError (world st)
         = (NextRound, lastError', w, evs1)"
      "rounds operation rnd p maxRetries (Suc attempt) lastError'
         (st\<lparr> svc := this', world := w, draws := Suc (draws st) \<rparr>) = (res, st', evs2)"
      "evs = evs1 @ Slept (backoffDelay attempt (rnd (draws st))) # evs2"
  | (final) order this' lastError' w where
      "int attempt < maxRetries" "\<not> int attempt < maxRetries - 1"
      "getClientOrder p (svc st) = (order, this')"
      "tryClients operation (clients this') maxRetries attempt order lastError (world st)
         = (NextRound, lastError', w, evs)"
      "res = Thrown (throwLast lastError')" "st' = st\<lparr> svc := this', world := w \<rparr>"
proof (cases "int attempt < maxRetries")
  case False
  then show ?thesis using assms exhausted by (simp add: rounds_exhausted)
next
  case True
  obtain order this' where g: "getClientOrder p (svc st) = (order, this')"
    by (cases "getClientOrder p (svc st)")
  obtain x l w ev where t:
    "tryClients operation (clients this') maxRetries attempt order lastError (world st) = (x, l, w, ev)"
    by (cases "tryClients operation (clients this') maxRetries attempt order lastError (world st)") auto
  show ?thesis
  proof (cases x)
    case (Return r)
    then show ?thesis
      using assms True g t returned [of order this' r l w] by (simp add: rounds_Return [OF True g])
  next
    case (Throw e)
    then show ?thesis
      using assms True g t thrown [of order this' e l w] by (simp add: rounds_Throw [OF True g])
  next
    case NextRound
    show ?thesis
    proof (cases "int attempt < maxRetries - 1")
      case False
      then show ?thesis
        using assms True g t NextRound final [of order this' l w]
        by (simp add: rounds_final [OF True False g])
    next
      case b: True
      let ?st = "st\<lparr> svc := this', world := w, draws := Suc (draws st) \<rparr>"
      obtain res2 st2 ev2 where r:
        "rounds operation rnd p maxRetries (Suc attempt) l ?st = (res2, st2, ev2)"
        by (cases "rounds operation rnd p maxRetries (Suc attempt) l ?st") auto
      have "rounds operation rnd p maxRetries attempt lastError st
            = before (ev @ [Slept (backoffDelay attempt (rnd (draws st)))]) (res2, st2, ev2)"
        using rounds_backoff [OF b g, of operation lastError l w ev rnd] t NextRound r by simp
      then show ?thesis
        using assms b g t NextRound r backoff [of order this' l w ev ev2]
        by (simp add: before_def)
    qed
  qed
qed

lemma recorded_append: "recorded lastError (xs @ ys) = recorded (recorded lastError xs) ys"
  by (induction lastError xs rule: recorded.induct) simp_all

lemma recorded_Some: "recorded (Some e) evs \<noteq> None"
  by (induction "Some e" evs arbitrary: e rule: recorded.induct) auto

lemma getClientOrder_pool:
  assumes "clients this \<noteq> []" "getClientOrder p this = (order, this')"
  shows "order \<noteq> [] \<and> clients this' = clients this \<and> hd order = startIndex this p
         \<and> length order = length (clients this)"
proof -
  have n: "0 < length (clients this)" using assms(1) by simp
  have o: "order = map (\<lambda>i. (startIndex this p + int i) mod int (length (clients this)))
                     [0..<length (clients this)]"
    using getClientOrder_fst [OF assms(1), of p] assms(2) by simp
  have s: "0 \<le> startIndex this p \<and> startIndex this p < int (length (clients this))"
    using n normalize_range [of this p]
    by (auto simp: startIndex_def zmod_int split: option.splits)
  have c: "clients this' = clients this"
    using getClientOrder_snd [OF assms(1), of p] assms(2) by (simp split: if_splits)
  have h: "hd order = startIndex this p"
    using n s by (simp add: o hd_map upt_conv_Cons)
  show ?thesis using n o c h by simp
qed

lemma rounds_quota_last:
  "rounds operation rnd p maxRetries attempt lastError st = (res, st', evs) \<Longrightarrow>
   (\<forall>ev \<in> set (butlast evs). \<not> isQuotaFailure ev) \<and>
   (evs \<noteq> [] \<and> isQuotaFailure (last evs) \<longrightarrow> res = Thrown (ThrownError quotaExceededError))"
proof (induction "nat (maxRetries - int attempt)" arbitrary: attempt lastError st evs)
  case 0
  from "0.prems" show ?case
  proof (cases rule: rounds_cases)
    case exhausted
    then show ?thesis by simp
  qed (use "0.hyps" in simp_all)
next
  case (Suc k)
  from Suc.prems show ?case
  proof (cases rule: rounds_cases)
    case exhausted
    then show ?thesis by simp
  next
    case (returned order this' r lastError' w)
    then show ?thesis using tryClients_quota_last [OF returned(3)] by auto
  next
    case (thrown order this' e lastError' w)
    then show ?thesis using tryClients_quota_last [OF thrown(3)] by auto
  next
    case (backoff order this' lastError' w evs1 evs2)
    have k: "k = nat (maxRetries - int (Suc attempt))"
      using Suc.hyps(2) by simp
    have ih: "(\<forall>ev \<in> set (butlast evs2). \<not> isQuotaFailure ev) \<and>
              (evs2 \<noteq> [] \<and> isQuotaFailure (last evs2) \<longrightarrow> res = Thrown (ThrownError quotaExceededError))"
      using Suc.hyps(1) [OF k backoff(4)] .
    have i1: "\<forall>ev \<in> set evs1. \<not> isQuotaFailure ev"
      using tryClients_quota_last [OF backoff(3)] by simp
    show ?thesis using ih i1 backoff(5) by (auto simp: butlast_append)
  next
    case (final order this' lastError' w)
    then show ?thesis using tryClients_quota_last [OF final(4)] by auto
  qed
qed

lemma rounds_outcome:
  "rounds operation rnd p maxRetries attempt lastError st = (res, st', evs) \<Longrightarrow>
   (\<forall>r. res = Returned r \<longrightarrow> (\<exists>i. evs \<noteq> [] \<and> last evs = Called i (Inr r))) \<and>
   (\<forall>t. res = Thrown t \<longrightarrow>
      (t = ThrownError quotaExceededError \<and>
       (\<exists>i e'. evs \<noteq> [] \<and> last evs = Called i (Inl e') \<and> isQuotaExceeded429 e'))
      \<or> t = throwLast (recorded lastError evs))"
proof (induction "nat (maxRetries - int attempt)" arbitrary: attempt lastError st evs)
  case 0
  from "0.prems" show ?case
  proof (cases rule: rounds_cases)
    case exhausted
    then show ?thesis by simp
  qed (use "0.hyps" in simp_all)
next
  case (Suc k)
  from Suc.prems show ?case
  proof (cases rule: rounds_cases)
    case exhausted
    then show ?thesis by simp
  next
    case (returned order this' r lastError' w)
    then show ?thesis using tryClients_exit [OF returned(3)] by auto
  next
    case (thrown order this' e lastError' w)
    then show ?thesis
      using tryClients_exit [OF thrown(3)] tryClients_recorded [OF thrown(3)]
      by (auto simp: throwLast_def)
  next
    case (backoff order this' lastError' w evs1 evs2)
    have k: "k = nat (maxRetries - int (Suc attempt))"
      using Suc.hyps(2) by simp
    note ih = Suc.hyps(1) [OF k backoff(4)]
    have l: "lastError' = recorded lastError evs1"
      using tryClients_recorded [OF backoff(3)] .
    have r: "recorded lastError evs = recorded lastError' evs2"
      by (simp add: backoff(5) recorded_append l)
    show ?thesis using ih r backoff(5) by auto
  next
    case (final order this' lastError' w)
    then show ?thesis using tryClients_recorded [OF final(4)] by auto
  qed
qed

lemma rounds_defined:
  "rounds operation rnd p maxRetries attempt lastError st = (Thrown t, st', evs) \<Longrightarrow>
   (int attempt < maxRetries \<and> clients (svc st) \<noteq> []) \<or> lastError \<noteq> None \<Longrightarrow>
   t \<noteq> ThrownUndefined"
proof (induction "nat (maxRetries - int attempt)" arbitrary: attempt lastError st evs)
  case 0
  from "0.prems"(1) show ?case
  proof (cases rule: rounds_cases)
    case exhausted
    then show ?thesis using "0.prems"(2) by (auto simp: throwLast_def)
  qed (use "0.hyps" in simp_all)
next
  case (Suc k)
  from Suc.prems(1) show ?case
  proof (cases rule: rounds_cases)
    case exhausted
    then show ?thesis using Suc.prems(2) by (auto simp: throwLast_def)
  next
    case (returned order this' r lastError' w)
    then show ?thesis by simp
  next
    case (thrown order this' e lastError' w)
    then show ?thesis by simp
  next
    case (backoff order this' lastError' w evs1 evs2)
    have k: "k = nat (maxRetries - int (Suc attempt))"
      using Suc.hyps(2) by simp
    have "lastError' \<noteq> None"
    proof (cases lastError)
      case None
      then have "clients (svc st) \<noteq> []" using Suc.prems(2) by simp
      then have "order \<noteq> []" using getClientOrder_pool [OF _ backoff(2)] by simp
      then show ?thesis using tryClients_exit [OF backoff(3)] by simp
    next
      case (Some e)
      then show ?thesis using tryClients_recorded [OF backoff(3)] recorded_Some by simp
    qed
    then show ?thesis using Suc.hyps(1) [OF k backoff(4)] by simp
  next
    case (final order this' lastError' w)
    have "lastError' \<noteq> None"
    proof (cases lastError)
      case None
      then have "clients (svc st) \<noteq> []" using Suc.prems(2) by simp
      then have "order \<noteq> []" using getClientOrder_pool [OF _ final(3)] by simp
      then show ?thesis using tryClients_exit [OF final(4)] by simp
    next
      case (Some e)
      then show ?thesis using tryClients_recorded [OF final(4)] recorded_Some by simp
    qed
    then show ?thesis using final(5) by (auto simp: throwLast_def)
  qed
qed

lemma startsWith_iff: "startsWith s p \<longleftrightarrow> (\<exists>ss. s = p @ ss)"
  by (induction s p rule: startsWith.induct) auto

lemma js_includes_iff: "js_includes s needle \<longleftrightarrow> (\<exists>ps ss. s = ps @ needle @ ss)"
proof (induction s)
  case Nil
  then show ?case by auto
next
  case (Cons c cs)
  show ?case
  proof
    assume "js_includes (c # cs) needle"
    then consider "startsWith (c # cs) needle" | "js_includes cs needle" by auto
    then show "\<exists>ps ss. c # cs = ps @ needle @ ss"
    proof cases
      case 1
      then obtain ss where "c # cs = needle @ ss" by (auto simp: startsWith_iff)
      then have "c # cs = [] @ needle @ ss" by simp
      then show ?thesis by blast
    next
      case 2
      then obtain ps ss where "cs = ps @ needle @ ss" using Cons.IH by auto
      then have "c # cs = (c # ps) @ needle @ ss" by simp
      then show ?thesis by blast
    qed
  next
    assume "\<exists>ps ss. c # cs = ps @ needle @ ss"
    then obtain ps ss where e: "c # cs = ps @ needle @ ss" by auto
    show "js_includes (c # cs) needle"
    proof (cases ps)
      case Nil
      then have "startsWith (c # cs) needle" using e startsWith_iff by auto
      then show ?thesis by simp
    next
      case (Cons a as)
      then have "cs = as @ needle @ ss" using e by simp
      then have "js_includes cs needle" using Cons.IH by auto
      then show ?thesis by simp
    qed
  qed
qed

lemma tryClients_transient_last:
  "tryClients operation cs maxRetries attempt order lastError w = (x, lastError', w', evs) \<Longrightarrow>
   evs = pre @ Called i (Inl e) # post \<Longrightarrow> isTransient e \<Longrightarrow> int attempt < maxRetries - 1 \<Longrightarrow>
   post = [] \<and> x = NextRound \<and> lastError' = Some e"
proof (induction order arbitrary: lastError w evs pre)
  case Nil
  then show ?case by simp
next
  case (Cons j rest)
  note tf = transient_facts [OF Cons.prems(3)] transient_not_quota [OF Cons.prems(3)]
  from Cons.prems(1) show ?case
  proof (cases rule: tryClients_cases)
    case (success r)
    then show ?thesis using Cons.prems(2) by (cases pre) auto
  next
    case (quota e')
    then show ?thesis using Cons.prems(2) tf by (cases pre) auto
  next
    case (continue e' w1 evs1)
    show ?thesis
    proof (cases pre)
      case Nil
      then have "e' = e" using continue(5) Cons.prems(2) by simp
      then show ?thesis using continue(3) tf by simp
    next
      case (Cons a pre')
      then have "evs1 = pre' @ Called i (Inl e) # post"
        using continue(5) Cons.prems(2) by simp
      then show ?thesis
        using Cons.IH [OF continue(4) _ Cons.prems(3,4)] by simp
    qed
  next
    case (break e')
    then show ?thesis using Cons.prems(2) by (cases pre) auto
  next
    case (throw e')
    then show ?thesis using Cons.prems(2,4) tf by (cases pre) auto
  qed
qed

lemma all_transient_round:
  assumes "\<forall>c w. \<exists>e w'. operation c w = (Inl e, w') \<and> isTransient e"
    and "order \<noteq> []"
  shows "\<exists>i e w'. isTransient e \<and>
           tryClients operation cs maxRetries attempt order lastError w
             = ((if int attempt < maxRetries - 1 then NextRound else Throw e), Some e, w', [Called i (Inl e)])"
proof -
  obtain i rest where o: "order = i # rest" using assms(2) by (cases order) auto
  obtain e w' where e: "operation (js_index cs i) w = (Inl e, w')" "isTransient e"
    using assms(1) by blast
  show ?thesis
  proof (cases "int attempt < maxRetries - 1")
    case True
    then show ?thesis
      using tryClients_break [where operation = operation and cs = cs and i = i and w = w, OF e True] o e(2)
      by auto
  next
    case False
    have "tryClients operation cs maxRetries attempt (i # rest) lastError w
            = (Throw e, Some e, w', [Called i (Inl e)])"
      using transient_facts [OF e(2)] transient_not_quota [OF e(2)] False
      by (intro tryClients_throw [where operation = operation and cs = cs and i = i and w = w, OF e(1)]) auto
    then show ?thesis using False o e(2) by auto
  qed
qed

lemma all_transient_three:
  assumes t: "\<forall>c w. \<exists>e w'. operation c w = (Inl e, w') \<and> isTransient e"
    and n: "clients (svc st) \<noteq> []"
  shows "\<exists>i0 e0 i1 e1 i2 e2 st'.
           makeRequestWithRetry operation rnd (Some 3) p st
             = (Thrown (ThrownError e2), st',
                [Called i0 (Inl e0), Slept (backoffDelay 0 (rnd (draws st))),
                 Called i1 (Inl e1), Slept (backoffDelay 1 (rnd (Suc (draws st)))),
                 Called i2 (Inl e2)]) \<and> isTransient e2"
proof -
  obtain o0 s0 where g0: "getClientOrder p (svc st) = (o0, s0)"
    by (cases "getClientOrder p (svc st)")
  have p0: "o0 \<noteq> []" "clients s0 \<noteq> []"
    using getClientOrder_pool [OF n g0] n by simp_all
  obtain i0 e0 w0 where r0:
    "tryClients operation (clients s0) 3 0 o0 None (world st) = (NextRound, Some e0, w0, [Called i0 (Inl e0)])"
    using all_transient_round [OF t p0(1), of "clients s0" 3 0 None "world st"] by auto
  let ?st1 = "st\<lparr> svc := s0, world := w0, draws := Suc (draws st) \<rparr>"
  obtain o1 s1 where g1: "getClientOrder p (svc ?st1) = (o1, s1)"
    by (cases "getClientOrder p (svc ?st1)")
  have p1: "o1 \<noteq> []" "clients s1 \<noteq> []"
    using getClientOrder_pool [OF _ g1] p0(2) by simp_all
  obtain i1 e1 w1 where r1:
    "tryClients operation (clients s1) 3 1 o1 (Some e0) (world ?st1) = (NextRound, Some e1, w1, [Called i1 (Inl e1)])"
    using all_transient_round [OF t p1(1), of "clients s1" 3 1 "Some e0" "world ?st1"] by auto
  let ?st2 = "?st1\<lparr> svc := s1, world := w1, draws := Suc (draws ?st1) \<rparr>"
  obtain o2 s2 where g2: "getClientOrder p (svc ?st2) = (o2, s2)"
    by (cases "getClientOrder p (svc ?st2)")
  have p2: "o2 \<noteq> []"
    using getClientOrder_pool [OF _ g2] p1(2) by simp
  obtain i2 e2 w2 where r2:
    "tryClients operation (clients s2) 3 2 o2 (Some e1) (world ?st2) = (Throw e2, Some e2, w2, [Called i2 (Inl e2)])"
    "isTransient e2"
    using all_transient_round [OF t p2, of "clients s2" 3 2 "Some e1" "world ?st2"] by auto
  have R2: "rounds operation rnd p 3 2 (Some e1) ?st2
            = (Thrown (ThrownError e2), ?st2\<lparr> svc := s2, world := w2 \<rparr>, [Called i2 (Inl e2)])"
    using rounds_Throw [OF _ g2 r2(1), of rnd] by simp
  have R1: "rounds operation rnd p 3 1 (Some e0) ?st1
            = before ([Called i1 (Inl e1)] @ [Slept (backoffDelay 1 (rnd (draws ?st1)))])
                (rounds operation rnd p 3 (Suc 1) (Some e1) ?st2)"
    using rounds_backoff [OF _ g1 r1, of rnd] by simp
  have R0: "rounds operation rnd p 3 0 None st
            = before ([Called i0 (Inl e0)] @ [Slept (backoffDelay 0 (rnd (draws st)))])
                (rounds operation rnd p 3 (Suc 0) (Some e0) ?st1)"
    using rounds_backoff [OF _ g0 r0, of rnd] by simp
  have "makeRequestWithRetry operation rnd (Some 3) p st = rounds operation rnd p 3 0 None st"
    using n by (simp add: makeRequestWithRetry_def hasAI_def)
  also have "\<dots> = (Thrown (ThrownError e2), ?st2\<lparr> svc := s2, world := w2 \<rparr>,
                [Called i0 (Inl e0), Slept (backoffDelay 0 (rnd (draws st))),
                 Called i1 (Inl e1), Slept (backoffDelay 1 (rnd (Suc (draws st)))),
                 Called i2 (Inl e2)])"
    using R0 R1 R2 by (simp add: before_def numeral_2_eq_2)
  finally show ?thesis using r2(2) by blast
qed


section \<open>Facts about the examples\<close>

lemma order_pool3: "getClientOrder JUndefined pool3 = ([1, 2, 0], pool3\<lparr> nextClientIndex := 2 \<rparr>)"
  by (simp add: getClientOrder_def normalizePreferredKeyIndex_def pool3_def js_rem_def Let_def)

lemma order_pool2: "getClientOrder JUndefined pool2 = ([0, 1], pool2\<lparr> nextClientIndex := 1 \<rparr>)"
  by (simp add: getClientOrder_def normalizePreferredKeyIndex_def pool2_def js_rem_def Let_def)

lemma order_pool1: "getClientOrder JUndefined pool1 = ([0], pool1)"
  by (simp add: getClientOrder_def normalizePreferredKeyIndex_def pool1_def js_rem_def Let_def)

lemma accountExhausted_quota: "isQuotaExceeded429 accountExhausted"
  by (simp add: isQuotaExceeded429_def accountExhausted_def getStatus_def getMessage_def)

lemma keyThrottled_quota: "isQuotaExceeded429 keyThrottled"
  by (simp add: isQuotaExceeded429_def keyThrottled_def getStatus_def getMessage_def)

lemma tooManyRequests_not_quota: "\<not> isQuotaExceeded429 tooManyRequests \<and> getStatus tooManyRequests = Some 429"
  by (simp add: isQuotaExceeded429_def tooManyRequests_def getStatus_def getMessage_def)

lemma serverError_transient: "isTransient serverError"
  by (simp add: isTransient_def getStatus_def serverError_def)

lemma all_serverError: "\<forall>c w. \<exists>e w'. failing serverError c w = (Inl e, w') \<and> isTransient e"
  using serverError_transient by (simp add: failing_def)

lemma networkError_run:
  "makeRequestWithRetry (failing networkError) noJitter None JUndefined
       \<lparr> svc = pool1, world = (), draws = 0 \<rparr>
     = (Thrown (ThrownError networkError), \<lparr> svc = pool1, world = (), draws = 0 \<rparr>,
        [Called 0 (Inl networkError)])"
proof -
  let ?st = "\<lparr> svc = pool1, world = (), draws = 0 \<rparr>"
  have g: "getClientOrder JUndefined (svc ?st) = ([0], pool1)"
    by (simp add: order_pool1)
  have s: "getStatus networkError = None"
    by (simp add: getStatus_def networkError_def)
  have o: "failing networkError (js_index (clients pool1) 0) (world ?st) = (Inl networkError, ())"
    by (simp add: failing_def)
  have t: "tryClients (failing networkError) (clients pool1) 3 0 [0] None (world ?st)
           = (Throw networkError, Some networkError, (), [Called 0 (Inl networkError)])"
    using s by (intro tryClients_throw [where operation = "failing networkError", OF o])
      (simp_all add: isQuotaExceeded429_def isAuthError_def isRetryableStatus_def)
  have "rounds (failing networkError) noJitter JUndefined 3 0 None ?st
        = (Thrown (ThrownError networkError), ?st\<lparr> svc := pool1, world := () \<rparr>,
           [Called 0 (Inl networkError)])"
    using rounds_Throw [OF _ g t, of noJitter] by simp
  then show ?thesis
    by (simp add: makeRequestWithRetry_def hasAI_def pool1_def)
qed


section \<open>The retry loop: the properties\<close>

text \<open>
  C5. On an empty pool \<^verbatim>\<open>makeRequestWithRetry\<close> throws at once the error with status 503,
  message "AI service not initialized" and a user message. The call produces no event:
  the operation is not invoked and nothing sleeps; the state is left as it was.
\<close>

theorem makeRequestWithRetry_empty_pool:
  assumes "clients (svc st) = []"
  shows "makeRequestWithRetry operation rnd maxRetries p st
           = (Thrown (ThrownError notInitializedError), st, []) \<and>
         status notInitializedError = Some 503 \<and>
         message notInitializedError = Some ''AI service not initialized'' \<and>
         userMessage notInitializedError = Some ''AI features are disabled on the server.''"
  using assms by (simp add: makeRequestWithRetry_def hasAI_def notInitializedError_def Let_def)

theorem makeRequestWithRetry_empty_pool_witness:
  "clients (svc \<lparr> svc = pool3\<lparr> clients := [] \<rparr>, world = (), draws = 0 \<rparr>) = [] \<and>
   makeRequestWithRetry (failing serverError) noJitter None JUndefined
       \<lparr> svc = pool3\<lparr> clients := [] \<rparr>, world = (), draws = 0 \<rparr>
     = (Thrown (ThrownError notInitializedError),
        \<lparr> svc = pool3\<lparr> clients := [] \<rparr>, world = (), draws = 0 \<rparr>, [])"
proof -
  have e: "clients (svc \<lparr> svc = pool3\<lparr> clients := [] \<rparr>, world = (), draws = 0 \<rparr>) = []"
    by simp
  show ?thesis
    using e makeRequestWithRetry_empty_pool [OF e, of "failing serverError" noJitter None JUndefined]
    by simp
qed

text \<open>
  C2. Whenever, during a call, an invocation of the operation fails with what
  \<^verbatim>\<open>isQuotaExceeded429\<close> takes for quota exhaustion, this invocation is the last event
  of the call (no further client, no further round, no sleep) and the call throws the
  error with status 429 whose user message tells that the quota is exceeded.
\<close>

theorem quota_exhausted_aborts_call:
  assumes "makeRequestWithRetry operation rnd maxRetries p st = (res, st', evs)"
    and "evs = pre @ Called i (Inl e) # post"
    and "isQuotaExceeded429 e"
  shows "post = [] \<and>
         res = Thrown (ThrownError quotaExceededError) \<and>
         status quotaExceededError = Some 429 \<and>
         userMessage quotaExceededError
           = Some ''AI is temporarily unavailable (Gemini quota exceeded). Try again later or increase your Gemini quota.''"
proof -
  have ne: "evs \<noteq> []" using assms(2) by simp
  then have "hasAI (svc st)"
    using assms(1) by (auto simp: makeRequestWithRetry_def Let_def split: if_splits)
  then obtain m where r: "rounds operation rnd p m 0 None st = (res, st', evs)"
    using assms(1) by (auto simp: makeRequestWithRetry_def Let_def)
  note q = rounds_quota_last [OF r]
  have "post = []"
  proof (rule ccontr)
    assume "post \<noteq> []"
    then have "Called i (Inl e) \<in> set (butlast evs)"
      by (simp add: assms(2) butlast_append)
    then show False using q assms(3) by auto
  qed
  then have "last evs = Called i (Inl e)"
    by (simp add: assms(2))
  then have "res = Thrown (ThrownError quotaExceededError)"
    using q ne assms(3) by simp
  then show ?thesis using \<open>post = []\<close> by (simp add: quotaExceededError_def)
qed

theorem quota_exhausted_aborts_call_witness:
  "isQuotaExceeded429 accountExhausted \<and>
   makeRequestWithRetry (failing accountExhausted) noJitter None JUndefined
       \<lparr> svc = pool3, world = (), draws = 0 \<rparr>
     = (Thrown (ThrownError quotaExceededError),
        \<lparr> svc = pool3\<lparr> nextClientIndex := 2 \<rparr>, world = (), draws = 0 \<rparr>,
        [Called 1 (Inl accountExhausted)])"
proof -
  let ?st = "\<lparr> svc = pool3, world = (), draws = 0 \<rparr>"
  have g: "getClientOrder JUndefined (svc ?st) = ([1, 2, 0], pool3\<lparr> nextClientIndex := 2 \<rparr>)"
    by (simp add: order_pool3)
  have o: "failing accountExhausted (js_index (clients (pool3\<lparr> nextClientIndex := 2 \<rparr>)) 1) (world ?st)
             = (Inl accountExhausted, ())"
    by (simp add: failing_def)
  have t: "tryClients (failing accountExhausted) (clients (pool3\<lparr> nextClientIndex := 2 \<rparr>)) 3 0
             [1, 2, 0] None (world ?st)
           = (Throw quotaExceededError, Some accountExhausted, (), [Called 1 (Inl accountExhausted)])"
    by (rule tryClients_quota [where operation = "failing accountExhausted", OF o accountExhausted_quota])
  have r: "rounds (failing accountExhausted) noJitter JUndefined 3 0 None ?st
           = (Thrown (ThrownError quotaExceededError),
              ?st\<lparr> svc := pool3\<lparr> nextClientIndex := 2 \<rparr>, world := () \<rparr>,
              [Called 1 (Inl accountExhausted)])"
    using rounds_Throw [OF _ g t, of noJitter] by simp
  have m: "makeRequestWithRetry (failing accountExhausted) noJitter None JUndefined ?st
           = (Thrown (ThrownError quotaExceededError),
              \<lparr> svc = pool3\<lparr> nextClientIndex := 2 \<rparr>, world = (), draws = 0 \<rparr>,
              [] @ Called 1 (Inl accountExhausted) # [])"
    using r by (simp add: makeRequestWithRetry_def hasAI_def pool3_def)
  show ?thesis
    using m accountExhausted_quota
      quota_exhausted_aborts_call [OF m _ accountExhausted_quota, of "[]" 1 "[]"]
    by simp
qed

text \<open>
  C6. When the operation fails on a client with status 401 or 403, or with status 429
  and no sign of quota exhaustion, the failure becomes the last error and the loop goes
  on with the next client of the same round; a round by itself never sleeps. On a pool
  of two clients whose rotation starts at 0, an authentication failure on client 0
  followed by a success on client 1 returns the result, and the events of the call are
  the two invocations only.
\<close>

theorem auth_and_rate_limit_rotate:
  "(operation (js_index cs i) w = (Inl e, w') \<and>
    (isAuthError (getStatus e) \<or> (getStatus e = Some 429 \<and> \<not> isQuotaExceeded429 e)) \<longrightarrow>
      tryClients operation cs maxRetries attempt (i # rest) lastError w
        = emit (Called i (Inl e)) (tryClients operation cs maxRetries attempt rest (Some e) w')) \<and>
   (tryClients operation cs maxRetries attempt order lastError w = (x, lastError', w'', evs) \<longrightarrow>
      (\<forall>d. Slept d \<notin> set evs)) \<and>
   (clients (svc st) = [c0, c1] \<and> startIndex (svc st) p = 0 \<and> 0 < m \<and>
    operation (Some c0) (world st) = (Inl e, w1) \<and> isAuthError (getStatus e) \<and>
    operation (Some c1) w1 = (Inr r, w2) \<longrightarrow>
      makeRequestWithRetry operation rnd (Some m) p st
        = (Returned r, st\<lparr> svc := snd (getClientOrder p (svc st)), world := w2 \<rparr>,
           [Called 0 (Inl e), Called 1 (Inr r)]))"
proof -
  have a: "operation (js_index cs i) w = (Inl e, w') \<and>
    (isAuthError (getStatus e) \<or> (getStatus e = Some 429 \<and> \<not> isQuotaExceeded429 e)) \<longrightarrow>
      tryClients operation cs maxRetries attempt (i # rest) lastError w
        = emit (Called i (Inl e)) (tryClients operation cs maxRetries attempt rest (Some e) w')"
  proof
    assume h: "operation (js_index cs i) w = (Inl e, w') \<and>
      (isAuthError (getStatus e) \<or> (getStatus e = Some 429 \<and> \<not> isQuotaExceeded429 e))"
    then have nq: "\<not> isQuotaExceeded429 e"
      by (auto simp: isAuthError_def isQuotaExceeded429_def Let_def)
    from h have c: "isAuthError (getStatus e) \<or> getStatus e = Some 429" by blast
    from h have o: "operation (js_index cs i) w = (Inl e, w')" by blast
    show "tryClients operation cs maxRetries attempt (i # rest) lastError w
        = emit (Called i (Inl e)) (tryClients operation cs maxRetries attempt rest (Some e) w')"
      by (rule tryClients_continue [where operation = operation, OF o nq c])
  qed
  have b: "tryClients operation cs maxRetries attempt order lastError w = (x, lastError', w'', evs) \<longrightarrow>
      (\<forall>d. Slept d \<notin> set evs)"
    using tryClients_exit [of operation cs maxRetries attempt order lastError w x lastError' w'' evs]
    by blast
  have c: "clients (svc st) = [c0, c1] \<and> startIndex (svc st) p = 0 \<and> 0 < m \<and>
    operation (Some c0) (world st) = (Inl e, w1) \<and> isAuthError (getStatus e) \<and>
    operation (Some c1) w1 = (Inr r, w2) \<longrightarrow>
      makeRequestWithRetry operation rnd (Some m) p st
        = (Returned r, st\<lparr> svc := snd (getClientOrder p (svc st)), world := w2 \<rparr>,
           [Called 0 (Inl e), Called 1 (Inr r)])"
  proof
    assume h: "clients (svc st) = [c0, c1] \<and> startIndex (svc st) p = 0 \<and> 0 < m \<and>
      operation (Some c0) (world st) = (Inl e, w1) \<and> isAuthError (getStatus e) \<and>
      operation (Some c1) w1 = (Inr r, w2)"
    then have n: "clients (svc st) \<noteq> []" by simp
    obtain order this' where g: "getClientOrder p (svc st) = (order, this')"
      by (cases "getClientOrder p (svc st)")
    have "order = map (\<lambda>i. (startIndex (svc st) p + int i) mod int (length (clients (svc st))))
                    [0..<length (clients (svc st))]"
      using getClientOrder_fst [OF n, of p] g by simp
    then have o: "order = [0, 1]"
      using h by (simp add: upt_rec)
    have cl: "clients this' = [c0, c1]"
      using getClientOrder_pool [OF n g] h by simp
    have nq: "\<not> isQuotaExceeded429 e"
      using h by (auto simp: isAuthError_def isQuotaExceeded429_def Let_def)
    have o0: "operation (js_index (clients this') 0) (world st) = (Inl e, w1)"
      using h by (simp add: cl js_index_def)
    have o1: "operation (js_index (clients this') 1) w1 = (Inr r, w2)"
      using h by (simp add: cl js_index_def)
    have t1: "tryClients operation (clients this') m 0 [1] (Some e) w1
              = (Return r, Some e, w2, [Called 1 (Inr r)])"
      by (rule tryClients_Return [where operation = operation, OF o1])
    have t0: "tryClients operation (clients this') m 0 [0, 1] None (world st)
              = emit (Called 0 (Inl e)) (tryClients operation (clients this') m 0 [1] (Some e) w1)"
      using h by (intro tryClients_continue [where operation = operation, OF o0 nq]) simp
    have t: "tryClients operation (clients this') m 0 order None (world st)
              = (Return r, Some e, w2, [Called 0 (Inl e), Called 1 (Inr r)])"
      by (simp add: o t0 t1 emit_def)
    have "rounds operation rnd p m 0 None st
          = (Returned r, st\<lparr> svc := this', world := w2 \<rparr>, [Called 0 (Inl e), Called 1 (Inr r)])"
      using rounds_Return [OF _ g t, of rnd] h by simp
    then show "makeRequestWithRetry operation rnd (Some m) p st
        = (Returned r, st\<lparr> svc := snd (getClientOrder p (svc st)), world := w2 \<rparr>,
           [Called 0 (Inl e), Called 1 (Inr r)])"
      using h g by (simp add: makeRequestWithRetry_def hasAI_def)
  qed
  from a b c show ?thesis by blast
qed

theorem auth_and_rate_limit_rotate_witness:
  "makeRequestWithRetry firstKeyRevoked noJitter (Some 3) JUndefined \<lparr> svc = pool2, world = (), draws = 0 \<rparr>
     = (Returned ''a review'',
        \<lparr> svc = pool2\<lparr> nextClientIndex := 1 \<rparr>, world = (), draws = 0 \<rparr>,
        [Called 0 (Inl invalidKey), Called 1 (Inr ''a review'')]) \<and>
   tryClients firstKeyLimited (clients pool2) 3 0 [0, 1] None ()
     = (Return ''a review'', Some tooManyRequests, (),
        [Called 0 (Inl tooManyRequests), Called 1 (Inr ''a review'')]) \<and>
   Slept 1000 \<notin> set [Called 0 (Inl tooManyRequests), Called 1 (Inr ''a review'' :: js_error + string)]"
proof -
  let ?st = "\<lparr> svc = pool2, world = (), draws = 0 \<rparr>"
  let ?c0 = "GoogleGenAI ''k0''" and ?c1 = "GoogleGenAI ''k1''"
  have h: "clients (svc ?st) = [?c0, ?c1] \<and> startIndex (svc ?st) JUndefined = 0 \<and> (0::int) < 3 \<and>
    firstKeyRevoked (Some ?c0) (world ?st) = (Inl invalidKey, ()) \<and> isAuthError (getStatus invalidKey) \<and>
    firstKeyRevoked (Some ?c1) () = (Inr ''a review'', ())"
    by (simp add: pool2_def startIndex_def normalizePreferredKeyIndex_def firstKeyRevoked_def
          isAuthError_def getStatus_def invalidKey_def)
  have l: "firstKeyLimited (js_index (clients pool2) 0) () = (Inl tooManyRequests, ()) \<and>
    (isAuthError (getStatus tooManyRequests) \<or>
     (getStatus tooManyRequests = Some 429 \<and> \<not> isQuotaExceeded429 tooManyRequests))"
    using tooManyRequests_not_quota by (simp add: pool2_def js_index_def firstKeyLimited_def)
  have t1: "tryClients firstKeyLimited (clients pool2) 3 0 [1] (Some tooManyRequests) ()
            = (Return ''a review'', Some tooManyRequests, (), [Called 1 (Inr ''a review'')])"
    by (rule tryClients_Return [where operation = firstKeyLimited])
       (simp add: pool2_def js_index_def firstKeyLimited_def)
  have t: "tryClients firstKeyLimited (clients pool2) 3 0 [0, 1] None ()
            = (Return ''a review'', Some tooManyRequests, (),
               [Called 0 (Inl tooManyRequests), Called 1 (Inr ''a review'')])"
    using l t1
      auth_and_rate_limit_rotate [of firstKeyLimited "clients pool2" 0 "()" tooManyRequests "()"
          3 0 "[1]" None]
    by (simp add: emit_def)
  have s: "Slept 1000 \<notin> set [Called 0 (Inl tooManyRequests), Called 1 (Inr ''a review'' :: js_error + string)]"
    using t auth_and_rate_limit_rotate [of firstKeyLimited "clients pool2" 0 "()" tooManyRequests "()"
          3 0 "[1]" None "[0, 1]"]
    by simp
  have m: "makeRequestWithRetry firstKeyRevoked noJitter (Some 3) JUndefined ?st
     = (Returned ''a review'', ?st\<lparr> svc := snd (getClientOrder JUndefined (svc ?st)), world := () \<rparr>,
        [Called 0 (Inl invalidKey), Called 1 (Inr ''a review'')])"
    using h auth_and_rate_limit_rotate [where operation = firstKeyRevoked and st = ?st
          and ?c0.0 = ?c0 and ?c1.0 = ?c1 and p = JUndefined and m = 3 and e = invalidKey
          and ?w1.0 = "()" and r = "''a review''" and ?w2.0 = "()" and rnd = noJitter]
    by blast
  show ?thesis using m t s by (simp add: order_pool2)
qed

text \<open>
  C10. A caught failure counts as quota exhaustion exactly when its status is 429 and its
  message contains "Quota exceeded", "RESOURCE_EXHAUSTED" or "RATE_LIMIT_EXCEEDED". Such
  a failure makes the round throw the quota error, and a round that throws ends the call
  with that error. Any other failure with status 429 makes the loop go on with the next
  client of the round. So a throttle of one key whose message contains
  "RATE_LIMIT_EXCEEDED" counts as quota exhaustion and ends the call.
\<close>

theorem quota_classification_boundary:
  "(isQuotaExceeded429 e \<longleftrightarrow>
      getStatus e = Some 429 \<and>
      (js_includes (getMessage e) ''Quota exceeded'' \<or>
       js_includes (getMessage e) ''RESOURCE_EXHAUSTED'' \<or>
       js_includes (getMessage e) ''RATE_LIMIT_EXCEEDED'')) \<and>
   (operation (js_index cs i) w = (Inl e, w') \<and> isQuotaExceeded429 e \<longrightarrow>
      tryClients operation cs maxRetries attempt (i # rest) lastError w
        = (Throw quotaExceededError, Some e, w', [Called i (Inl e)])) \<and>
   (int attempt < maxRetries \<and> getClientOrder p (svc st) = (order, this') \<and>
    tryClients operation (clients this') maxRetries attempt order lastError (world st)
      = (Throw x, lastError', w'', evs) \<longrightarrow>
      rounds operation rnd p maxRetries attempt lastError st
        = (Thrown (ThrownError x), st\<lparr> svc := this', world := w'' \<rparr>, evs)) \<and>
   (operation (js_index cs i) w = (Inl e, w') \<and> getStatus e = Some 429 \<and> \<not> isQuotaExceeded429 e \<longrightarrow>
      tryClients operation cs maxRetries attempt (i # rest) lastError w
        = emit (Called i (Inl e)) (tryClients operation cs maxRetries attempt rest (Some e) w')) \<and>
   getStatus keyThrottled = Some 429 \<and> isQuotaExceeded429 keyThrottled"
proof -
  have a: "isQuotaExceeded429 e \<longleftrightarrow>
      getStatus e = Some 429 \<and>
      (js_includes (getMessage e) ''Quota exceeded'' \<or>
       js_includes (getMessage e) ''RESOURCE_EXHAUSTED'' \<or>
       js_includes (getMessage e) ''RATE_LIMIT_EXCEEDED'')"
    by (simp add: isQuotaExceeded429_def Let_def)
  have b: "operation (js_index cs i) w = (Inl e, w') \<and> isQuotaExceeded429 e \<longrightarrow>
      tryClients operation cs maxRetries attempt (i # rest) lastError w
        = (Throw quotaExceededError, Some e, w', [Called i (Inl e)])"
    using tryClients_quota [where operation = operation and cs = cs and i = i and w = w] by blast
  have c: "int attempt < maxRetries \<and> getClientOrder p (svc st) = (order, this') \<and>
    tryClients operation (clients this') maxRetries attempt order lastError (world st)
      = (Throw x, lastError', w'', evs) \<longrightarrow>
      rounds operation rnd p maxRetries attempt lastError st
        = (Thrown (ThrownError x), st\<lparr> svc := this', world := w'' \<rparr>, evs)"
    using rounds_Throw [where operation = operation] by blast
  have d: "operation (js_index cs i) w = (Inl e, w') \<and> getStatus e = Some 429 \<and> \<not> isQuotaExceeded429 e \<longrightarrow>
      tryClients operation cs maxRetries attempt (i # rest) lastError w
        = emit (Called i (Inl e)) (tryClients operation cs maxRetries attempt rest (Some e) w')"
    using tryClients_continue [where operation = operation and cs = cs and i = i and w = w] by blast
  have e: "getStatus keyThrottled = Some 429 \<and> isQuotaExceeded429 keyThrottled"
    using keyThrottled_quota by (simp add: getStatus_def keyThrottled_def)
  from a b c d e show ?thesis by blast
qed

theorem quota_classification_boundary_witness:
  "isQuotaExceeded429 keyThrottled \<and>
   rounds (failing keyThrottled) noJitter JUndefined 3 0 None \<lparr> svc = pool2, world = (), draws = 0 \<rparr>
     = (Thrown (ThrownError quotaExceededError),
        \<lparr> svc = pool2\<lparr> nextClientIndex := 1 \<rparr>, world = (), draws = 0 \<rparr>,
        [Called 0 (Inl keyThrottled)]) \<and>
   getStatus tooManyRequests = Some 429 \<and> \<not> isQuotaExceeded429 tooManyRequests \<and>
   tryClients firstKeyLimited (clients pool2) 3 0 [0, 1] None ()
     = (Return ''a review'', Some tooManyRequests, (),
        [Called 0 (Inl tooManyRequests), Called 1 (Inr ''a review'')])"
proof -
  let ?st = "\<lparr> svc = pool2, world = (), draws = 0 \<rparr>"
  let ?nxt = "pool2\<lparr> nextClientIndex := 1 \<rparr>"
  have k: "isQuotaExceeded429 keyThrottled"
    by (rule keyThrottled_quota)
  have o: "failing keyThrottled (js_index (clients ?nxt) 0) () = (Inl keyThrottled, ())"
    by (simp add: failing_def)
  have t: "tryClients (failing keyThrottled) (clients ?nxt) 3 0 [0, 1] None (world ?st)
             = (Throw quotaExceededError, Some keyThrottled, (), [Called 0 (Inl keyThrottled)])"
    using o k
      quota_classification_boundary [where e = keyThrottled and operation = "failing keyThrottled"
        and cs = "clients ?nxt" and i = 0 and w = "()" and w' = "()" and maxRetries = 3
        and attempt = 0 and rest = "[1]" and lastError = None]
    by simp
  have g: "getClientOrder JUndefined (svc ?st) = ([0, 1], ?nxt)"
    by (simp add: order_pool2)
  have r: "rounds (failing keyThrottled) noJitter JUndefined 3 0 None ?st
     = (Thrown (ThrownError quotaExceededError), ?st\<lparr> svc := ?nxt, world := () \<rparr>,
        [Called 0 (Inl keyThrottled)])"
    using g t
      quota_classification_boundary [where operation = "failing keyThrottled" and maxRetries = 3
        and attempt = 0 and lastError = None and p = JUndefined and st = ?st and order = "[0, 1]"
        and this' = ?nxt and x = quotaExceededError and lastError' = "Some keyThrottled"
        and w'' = "()" and evs = "[Called 0 (Inl keyThrottled)]" and rnd = noJitter]
    by simp
  have l: "firstKeyLimited (js_index (clients pool2) 0) () = (Inl tooManyRequests, ())"
    by (simp add: pool2_def js_index_def firstKeyLimited_def)
  have t1: "tryClients firstKeyLimited (clients pool2) 3 0 [1] (Some tooManyRequests) ()
            = (Return ''a review'', Some tooManyRequests, (), [Called 1 (Inr ''a review'')])"
    by (rule tryClients_Return [where operation = firstKeyLimited])
       (simp add: pool2_def js_index_def firstKeyLimited_def)
  have t2: "tryClients firstKeyLimited (clients pool2) 3 0 [0, 1] None ()
     = (Return ''a review'', Some tooManyRequests, (),
        [Called 0 (Inl tooManyRequests), Called 1 (Inr ''a review'')])"
    using l t1 tooManyRequests_not_quota
      quota_classification_boundary [where e = tooManyRequests and operation = firstKeyLimited
        and cs = "clients pool2" and i = 0 and w = "()" and w' = "()" and maxRetries = 3
        and attempt = 0 and rest = "[1]" and lastError = None]
    by (simp add: emit_def)
  show ?thesis using k r t2 tooManyRequests_not_quota by simp
qed

text \<open>
  C1, as stated, fails in its bound on the delay: the sum is rounded to a double, and
  for the largest numbers below 1 that \<^verbatim>\<open>Math.random\<close> can return (\<open>1 - 2^-53\<close>, and
  \<open>1 - 2^-52\<close> as well) the delay after round 0 is 1500 milliseconds, not less.
\<close>

theorem backoff_delay_reaches_1500:
  "isDouble (Double (2 ^ 53 - 1) (- 53)) \<and>
   0 \<le> valueOf (Double (2 ^ 53 - 1) (- 53)) \<and> valueOf (Double (2 ^ 53 - 1) (- 53)) < 1 \<and>
   backoffDelay 0 (Double (2 ^ 53 - 1) (- 53)) = 1500 \<and>
   isDouble (Double (2 ^ 52 - 1) (- 52)) \<and>
   0 \<le> valueOf (Double (2 ^ 52 - 1) (- 52)) \<and> valueOf (Double (2 ^ 52 - 1) (- 52)) < 1 \<and>
   backoffDelay 0 (Double (2 ^ 52 - 1) (- 52)) = 1500"
proof -
  have a: "isDouble (Double (2 ^ 53 - 1) (- 53))"
    using bitlen_small [of "2 ^ 53 - 1"] by (simp add: isDouble_def)
  have b: "isDouble (Double (2 ^ 52 - 1) (- 52))"
    using bitlen_small [of "2 ^ 52 - 1"] by (simp add: isDouble_def)
  have c: "0 \<le> valueOf (Double (2 ^ 53 - 1) (- 53)) \<and> valueOf (Double (2 ^ 53 - 1) (- 53)) < 1"
    and d: "0 \<le> valueOf (Double (2 ^ 52 - 1) (- 52)) \<and> valueOf (Double (2 ^ 52 - 1) (- 52)) < 1"
    by (simp_all add: valueOf_def)
  have e: "backoffDelay 0 (Double (2 ^ 53 - 1) (- 53)) = 1500"
    by code_simp
  have f: "backoffDelay 0 (Double (2 ^ 52 - 1) (- 52)) = 1500"
    by code_simp
  from a b c d e f show ?thesis by blast
qed

text \<open>
  C1, amended. In a round that is not the last one, a failure with status 408, 500, 502,
  503 or 504 is the last event of the round (the clients left are skipped), becomes the
  last error, and is followed by one sleep and then by the next round. The sleep lasts
  \<open>min(8000, 2^attempt * 1000 + jitter)\<close> with the sum rounded to a double, where the
  jitter, the double product of 500 and the number drawn from \<open>[0, 1)\<close>, is at least 0
  and less than 500; so it lasts at least \<open>min(8000, 2^attempt * 1000)\<close> and at most
  \<open>min(8000, 2^attempt * 1000 + 500)\<close>, which is at least 1000 and at most 1500 after
  round 0. Once no round is left the call throws
  the last error; whatever a call throws is the quota error or the last error recorded.
  With three rounds and an operation that always fails in this way, the call makes
  three invocations separated by two sleeps and throws the error of the third
  invocation.
\<close>

theorem transient_failure_backoff:
  "(int attempt < maxRetries - 1 \<and> getClientOrder p (svc st) = (order, this') \<and>
    tryClients operation (clients this') maxRetries attempt order lastError (world st)
      = (x, lastError', w, evs) \<and>
    evs = pre @ Called i (Inl e) # post \<and> isTransient e \<longrightarrow>
      post = [] \<and> x = NextRound \<and> lastError' = Some e \<and>
      rounds operation rnd p maxRetries attempt lastError st
        = before (pre @ [Called i (Inl e), Slept (backoffDelay attempt (rnd (draws st)))])
            (rounds operation rnd p maxRetries (Suc attempt) (Some e)
               (st\<lparr> svc := this', world := w, draws := Suc (draws st) \<rparr>))) \<and>
   backoffDelay attempt u
     = min 8000 (valueOf (dadd (Double 1000 (int attempt)) (dmul u (Double 500 0)))) \<and>
   valueOf (Double 1000 (int attempt)) = 2 ^ attempt * 1000 \<and>
   (isDouble u \<and> 0 \<le> valueOf u \<and> valueOf u < 1 \<longrightarrow>
      0 \<le> valueOf (dmul u (Double 500 0)) \<and> valueOf (dmul u (Double 500 0)) < 500) \<and>
   (0 \<le> valueOf u \<and> valueOf u < 1 \<longrightarrow>
      min 8000 (2 ^ attempt * 1000) \<le> backoffDelay attempt u \<and>
      backoffDelay attempt u \<le> min 8000 (2 ^ attempt * 1000 + 500) \<and>
      1000 \<le> backoffDelay 0 u \<and> backoffDelay 0 u \<le> 1500) \<and>
   (\<not> int attempt < maxRetries \<longrightarrow>
      rounds operation rnd p maxRetries attempt lastError st = (Thrown (throwLast lastError), st, [])) \<and>
   (rounds operation rnd p maxRetries attempt lastError st = (Thrown t, st', evs') \<longrightarrow>
      t = ThrownError quotaExceededError \<or> t = throwLast (recorded lastError evs')) \<and>
   (clients (svc st) \<noteq> [] \<and> (\<forall>c w. \<exists>e w'. operation c w = (Inl e, w') \<and> isTransient e) \<longrightarrow>
      (\<exists>i0 e0 i1 e1 i2 e2 st'.
         makeRequestWithRetry operation rnd (Some 3) p st
           = (Thrown (ThrownError e2), st',
              [Called i0 (Inl e0), Slept (backoffDelay 0 (rnd (draws st))),
               Called i1 (Inl e1), Slept (backoffDelay 1 (rnd (Suc (draws st)))),
               Called i2 (Inl e2)]) \<and>
         isTransient e2))"
proof -
  have a: "int attempt < maxRetries - 1 \<and> getClientOrder p (svc st) = (order, this') \<and>
    tryClients operation (clients this') maxRetries attempt order lastError (world st)
      = (x, lastError', w, evs) \<and>
    evs = pre @ Called i (Inl e) # post \<and> isTransient e \<longrightarrow>
      post = [] \<and> x = NextRound \<and> lastError' = Some e \<and>
      rounds operation rnd p maxRetries attempt lastError st
        = before (pre @ [Called i (Inl e), Slept (backoffDelay attempt (rnd (draws st)))])
            (rounds operation rnd p maxRetries (Suc attempt) (Some e)
               (st\<lparr> svc := this', world := w, draws := Suc (draws st) \<rparr>))"
  proof
    assume h: "int attempt < maxRetries - 1 \<and> getClientOrder p (svc st) = (order, this') \<and>
      tryClients operation (clients this') maxRetries attempt order lastError (world st)
        = (x, lastError', w, evs) \<and>
      evs = pre @ Called i (Inl e) # post \<and> isTransient e"
    then have b: "int attempt < maxRetries - 1"
      and g: "getClientOrder p (svc st) = (order, this')"
      and t: "tryClients operation (clients this') maxRetries attempt order lastError (world st)
                = (x, lastError', w, evs)"
      and ev: "evs = pre @ Called i (Inl e) # post" and tr: "isTransient e"
      by blast+
    have l: "post = [] \<and> x = NextRound \<and> lastError' = Some e"
      by (rule tryClients_transient_last [OF t ev tr b])
    then have t': "tryClients operation (clients this') maxRetries attempt order lastError (world st)
                = (NextRound, Some e, w, pre @ [Called i (Inl e)])"
      using t ev by simp
    show "post = [] \<and> x = NextRound \<and> lastError' = Some e \<and>
      rounds operation rnd p maxRetries attempt lastError st
        = before (pre @ [Called i (Inl e), Slept (backoffDelay attempt (rnd (draws st)))])
            (rounds operation rnd p maxRetries (Suc attempt) (Some e)
               (st\<lparr> svc := this', world := w, draws := Suc (draws st) \<rparr>))"
      using l rounds_backoff [OF b g t', of rnd] by simp
  qed
  have b0: "backoffDelay attempt u
     = min 8000 (valueOf (dadd (Double 1000 (int attempt)) (dmul u (Double 500 0))))"
    by (simp add: backoffDelay_def base_delay)
  have b1: "valueOf (Double 1000 (int attempt)) = 2 ^ attempt * 1000"
    by (simp add: valueOf_def)
  have b2: "isDouble u \<and> 0 \<le> valueOf u \<and> valueOf u < 1 \<longrightarrow>
      0 \<le> valueOf (dmul u (Double 500 0)) \<and> valueOf (dmul u (Double 500 0)) < 500"
    using jitter_bounds [of u] jitter_less [of u] by blast
  have b: "0 \<le> valueOf u \<and> valueOf u < 1 \<longrightarrow>
      min 8000 (2 ^ attempt * 1000) \<le> backoffDelay attempt u \<and>
      backoffDelay attempt u \<le> min 8000 (2 ^ attempt * 1000 + 500) \<and>
      1000 \<le> backoffDelay 0 u \<and> backoffDelay 0 u \<le> 1500"
    using backoffDelay_bounds [of u attempt] by blast
  have c: "\<not> int attempt < maxRetries \<longrightarrow>
      rounds operation rnd p maxRetries attempt lastError st = (Thrown (throwLast lastError), st, [])"
    using rounds_exhausted [where operation = operation] by blast
  have d: "rounds operation rnd p maxRetries attempt lastError st = (Thrown t, st', evs') \<longrightarrow>
      t = ThrownError quotaExceededError \<or> t = throwLast (recorded lastError evs')"
    using rounds_outcome [of operation rnd p maxRetries attempt lastError st "Thrown t" st' evs']
    by blast
  have e: "clients (svc st) \<noteq> [] \<and> (\<forall>c w. \<exists>e w'. operation c w = (Inl e, w') \<and> isTransient e) \<longrightarrow>
      (\<exists>i0 e0 i1 e1 i2 e2 st'.
         makeRequestWithRetry operation rnd (Some 3) p st
           = (Thrown (ThrownError e2), st',
              [Called i0 (Inl e0), Slept (backoffDelay 0 (rnd (draws st))),
               Called i1 (Inl e1), Slept (backoffDelay 1 (rnd (Suc (draws st)))),
               Called i2 (Inl e2)]) \<and>
         isTransient e2)"
    using all_transient_three [of operation st rnd p] by blast
  from a b0 b1 b2 b c d e show ?thesis by blast
qed

theorem transient_failure_backoff_witness:
  "clients (svc \<lparr> svc = pool3, world = (), draws = 0 \<rparr>) \<noteq> [] \<and>
   isTransient serverError \<and>
   tryClients (failing serverError) (clients (pool3\<lparr> nextClientIndex := 2 \<rparr>)) 3 0 [1, 2, 0] None ()
     = (NextRound, Some serverError, (), [Called 1 (Inl serverError)]) \<and>
   rounds (failing serverError) noJitter JUndefined 3 0 None \<lparr> svc = pool3, world = (), draws = 0 \<rparr>
     = before [Called 1 (Inl serverError), Slept 1000]
         (rounds (failing serverError) noJitter JUndefined 3 1 (Some serverError)
            \<lparr> svc = pool3\<lparr> nextClientIndex := 2 \<rparr>, world = (), draws = 1 \<rparr>) \<and>
   isDouble (Double 1 (- 1)) \<and>
   0 \<le> valueOf (Double 1 (- 1)) \<and> valueOf (Double 1 (- 1)) < 1 \<and>
   valueOf (dmul (Double 1 (- 1)) (Double 500 0)) = 250 \<and>
   backoffDelay 0 (Double 1 (- 1)) = 1250 \<and>
   rounds (failing serverError) noJitter JUndefined 3 3 (Some serverError)
       \<lparr> svc = pool3, world = (), draws = 2 \<rparr>
     = (Thrown (ThrownError serverError), \<lparr> svc = pool3, world = (), draws = 2 \<rparr>, []) \<and>
   (\<exists>i0 e0 i1 e1 i2 e2 st'.
      makeRequestWithRetry (failing serverError) noJitter (Some 3) JUndefined
          \<lparr> svc = pool3, world = (), draws = 0 \<rparr>
        = (Thrown (ThrownError e2), st',
           [Called i0 (Inl e0), Slept 1000, Called i1 (Inl e1), Slept 2000, Called i2 (Inl e2)]) \<and>
      isTransient e2)"
proof -
  let ?st = "\<lparr> svc = pool3, world = (), draws = 0 \<rparr>"
  let ?nxt = "pool3\<lparr> nextClientIndex := 2 \<rparr>"
  let ?op = "failing serverError"
  have n: "clients (svc ?st) \<noteq> []"
    by (simp add: pool3_def)
  have g: "getClientOrder JUndefined (svc ?st) = ([1, 2, 0], ?nxt)"
    by (simp add: order_pool3)
  have o: "?op (js_index (clients ?nxt) 1) () = (Inl serverError, ())"
    by (simp add: failing_def)
  have t: "tryClients ?op (clients ?nxt) 3 0 [1, 2, 0] None (world ?st)
             = (NextRound, Some serverError, (), [] @ Called 1 (Inl serverError) # [])"
    using tryClients_break [where operation = ?op, OF o serverError_transient, of 0 3 "[2, 0]" None]
    by simp
  have d0: "backoffDelay 0 (noJitter 0) = 1000"
    by code_simp
  have d1: "backoffDelay 1 (noJitter 1) = 2000"
    by code_simp
  have dv: "0 \<le> valueOf (Double 1 (- 1)) \<and> valueOf (Double 1 (- 1)) < 1"
    by (simp add: valueOf_def)
  have di: "isDouble (Double 1 (- 1))"
    using bitlen_small [of 1] by (simp add: isDouble_def)
  have dj: "valueOf (dmul (Double 1 (- 1)) (Double 500 0)) = 250"
    by code_simp
  have dh: "backoffDelay 0 (Double 1 (- 1)) = 1250"
    by code_simp
  note inst = transient_failure_backoff [where operation = ?op and rnd = noJitter and p = JUndefined
      and st = ?st and maxRetries = 3 and attempt = 0 and order = "[1, 2, 0]" and this' = ?nxt
      and lastError = None and x = NextRound and lastError' = "Some serverError" and w = "()"
      and evs = "[] @ Called 1 (Inl serverError) # []" and pre = "[]" and i = 1 and e = serverError
      and post = "[]" and u = "Double 1 (- 1)"]
  have r0: "rounds ?op noJitter JUndefined 3 0 None ?st
     = before [Called 1 (Inl serverError), Slept 1000]
         (rounds ?op noJitter JUndefined 3 1 (Some serverError)
            \<lparr> svc = ?nxt, world = (), draws = 1 \<rparr>)"
    using inst g t serverError_transient d0 by simp
  have r3: "rounds ?op noJitter JUndefined 3 3 (Some serverError) \<lparr> svc = pool3, world = (), draws = 2 \<rparr>
     = (Thrown (ThrownError serverError), \<lparr> svc = pool3, world = (), draws = 2 \<rparr>, [])"
    using transient_failure_backoff [where operation = ?op and rnd = noJitter and p = JUndefined
      and st = "\<lparr> svc = pool3, world = (), draws = 2 \<rparr>" and maxRetries = 3 and attempt = 3
      and lastError = "Some serverError"]
    by (simp add: throwLast_def)
  have full: "\<exists>i0 e0 i1 e1 i2 e2 st'.
      makeRequestWithRetry ?op noJitter (Some 3) JUndefined ?st
        = (Thrown (ThrownError e2), st',
           [Called i0 (Inl e0), Slept 1000, Called i1 (Inl e1), Slept 2000, Called i2 (Inl e2)]) \<and>
      isTransient e2"
    using inst n all_serverError d0 d1 by simp
  show ?thesis
    using n serverError_transient t r0 di dv dj dh r3 full by simp
qed

text \<open>
  C9, as stated, fails: an error of the operation that has no status and no user
  message (a network failure, say) is thrown to the caller as it is.
\<close>

theorem surfaced_error_unclassified:
  "makeRequestWithRetry (failing networkError) noJitter None JUndefined
       \<lparr> svc = pool1, world = (), draws = 0 \<rparr>
     = (Thrown (ThrownError networkError), \<lparr> svc = pool1, world = (), draws = 0 \<rparr>,
        [Called 0 (Inl networkError)]) \<and>
   getStatus networkError = None \<and> userMessage networkError = None"
  using networkError_run by (simp add: getStatus_def networkError_def)

text \<open>
  C9, amended. With at least one round allowed, a call either returns the result of its
  last invocation of the operation, or throws the dispatcher's own error for the empty
  pool (status 503), or throws the dispatcher's own quota error (status 429) after an
  invocation that failed with quota exhaustion, or throws, as it is, the last error that
  the operation threw. The two errors of the dispatcher carry a status and a user
  message that differs from the message.
\<close>

theorem makeRequestWithRetry_outcomes:
  assumes "makeRequestWithRetry operation rnd maxRetries p st = (res, st', evs)"
    and "maxRetries = None \<or> (\<exists>m. maxRetries = Some m \<and> 0 < m)"
  shows "((\<exists>r i. res = Returned r \<and> evs \<noteq> [] \<and> last evs = Called i (Inr r)) \<or>
          (res = Thrown (ThrownError notInitializedError) \<and> clients (svc st) = [] \<and> evs = []) \<or>
          (res = Thrown (ThrownError quotaExceededError) \<and>
             (\<exists>i e. evs \<noteq> [] \<and> last evs = Called i (Inl e) \<and> isQuotaExceeded429 e)) \<or>
          (\<exists>e. res = Thrown (ThrownError e) \<and> recorded None evs = Some e)) \<and>
         status notInitializedError = Some 503 \<and>
         userMessage notInitializedError \<noteq> None \<and>
         userMessage notInitializedError \<noteq> message notInitializedError \<and>
         status quotaExceededError = Some 429 \<and>
         userMessage quotaExceededError \<noteq> None \<and>
         userMessage quotaExceededError \<noteq> message quotaExceededError"
proof -
  obtain m where m: "0 < m" "m = (case maxRetries of None \<Rightarrow> 3 | Some k \<Rightarrow> k)"
    using assms(2) by auto
  have fields: "status notInitializedError = Some 503 \<and>
         userMessage notInitializedError \<noteq> None \<and>
         userMessage notInitializedError \<noteq> message notInitializedError \<and>
         status quotaExceededError = Some 429 \<and>
         userMessage quotaExceededError \<noteq> None \<and>
         userMessage quotaExceededError \<noteq> message quotaExceededError"
    by (simp add: notInitializedError_def quotaExceededError_def)
  show ?thesis
  proof (cases "clients (svc st) = []")
    case True
    then have "res = Thrown (ThrownError notInitializedError) \<and> evs = []"
      using assms(1) by (simp add: makeRequestWithRetry_def hasAI_def Let_def)
    then show ?thesis using True fields by blast
  next
    case False
    then have r: "rounds operation rnd p m 0 None st = (res, st', evs)"
      using assms(1) m(2) by (simp add: makeRequestWithRetry_def hasAI_def Let_def)
    note out = rounds_outcome [OF r]
    show ?thesis
    proof (cases res)
      case (Returned x)
      then show ?thesis using out fields by blast
    next
      case (Thrown t)
      have "t \<noteq> ThrownUndefined"
        using rounds_defined [of operation rnd p m 0 None st t st' evs] r Thrown m(1) False by simp
      moreover have "(t = ThrownError quotaExceededError \<and>
          (\<exists>i e'. evs \<noteq> [] \<and> last evs = Called i (Inl e') \<and> isQuotaExceeded429 e'))
          \<or> t = throwLast (recorded None evs)"
        using out Thrown by blast
      ultimately have "(t = ThrownError quotaExceededError \<and>
          (\<exists>i e'. evs \<noteq> [] \<and> last evs = Called i (Inl e') \<and> isQuotaExceeded429 e'))
          \<or> (\<exists>e. t = ThrownError e \<and> recorded None evs = Some e)"
        by (auto simp: throwLast_def split: option.splits)
      then show ?thesis using Thrown fields by blast
    qed
  qed
qed

theorem makeRequestWithRetry_outcomes_witness:
  "makeRequestWithRetry (failing networkError) noJitter None JUndefined
       \<lparr> svc = pool1, world = (), draws = 0 \<rparr>
     = (Thrown (ThrownError networkError), \<lparr> svc = pool1, world = (), draws = 0 \<rparr>,
        [Called 0 (Inl networkError)]) \<and>
   ((None :: int option) = None \<or> (\<exists>m. (None :: int option) = Some m \<and> 0 < m)) \<and>
   recorded None [Called 0 (Inl networkError) :: string event] = Some networkError"
  using networkError_run makeRequestWithRetry_outcomes [OF networkError_run]
  by simp


section \<open>Pool construction: the properties\<close>

lemma split_nonempty: "split sep s \<noteq> []"
  by (induction s) (auto split: list.splits)

lemma join_Cons: "ws \<noteq> [] \<Longrightarrow> join sep (w # ws) = w @ sep # join sep ws"
  by (cases ws) simp_all

lemma join_split: "join sep (split sep s) = s"
proof (induction s)
  case Nil
  then show ?case by simp
next
  case (Cons c cs)
  show ?case
  proof (cases "c = sep")
    case True
    then show ?thesis using Cons split_nonempty [of sep cs] by (simp add: join_Cons)
  next
    case False
    obtain w ws where sp: "split sep cs = w # ws"
      using split_nonempty [of sep cs] by (cases "split sep cs") auto
    show ?thesis
    proof (cases ws)
      case Nil
      then show ?thesis using False sp Cons by simp
    next
      case (Cons v vs)
      then show ?thesis using False sp Cons.IH by simp
    qed
  qed
qed

lemma split_no_sep: "w \<in> set (split sep s) \<Longrightarrow> sep \<notin> set w"
  by (induction s arbitrary: w) (auto split: list.splits if_splits)

lemma parseKeyList_configured: "parseKeyList v = configuredKeys v"
  by (cases v) (simp_all add: parseKeyList_def configuredKeys_def trim_def trimStart_def)

lemma constructor_apiKeys:
  "apiKeys (fst (constructor ks k)) =
     (if configuredKeys ks \<noteq> [] then configuredKeys ks
      else case k of None \<Rightarrow> [] | Some l \<Rightarrow> if trim l = [] then [] else [trim l])"
  by (cases k) (auto simp: constructor_def Let_def parseKeyList_configured trim_def trimStart_def)

lemma trim_example: "trim '' a '' = ''a'' \<and> trim ''b'' = ''b'' \<and> trim ''a'' = ''a'' \<and> trim '' '' = [] \<and> trim '' legacy '' = ''legacy''
   \<and> trim ''k1'' = ''k1''"
  by (simp add: trim_def trimStart_def isWhiteSpace_def)

text \<open>
  C8, as stated, fails: the constructor does not remove duplicates. A credential listed
  twice gives two clients.
\<close>

theorem constructor_keeps_duplicates:
  "apiKeys (fst (constructor (Some ''k1,k1'') None)) = [''k1'', ''k1''] \<and>
   \<not> distinct (apiKeys (fst (constructor (Some ''k1,k1'') None)))"
  by (simp add: constructor_apiKeys configuredKeys_def trim_def trimStart_def isWhiteSpace_def)

text \<open>
  C8, amended. The credentials of the pool are the configured list split at the commas
  (the pieces contain no comma and, joined by commas, give the list back), each piece
  trimmed, the empty ones dropped, in their order and with their repetitions. When that
  leaves nothing, the pool is the trimmed legacy credential alone, or empty when that is
  unset or blank. There is one client per credential, the cursor starts at 0, and the
  constructor writes its one warning exactly when the pool is empty; it has no failing
  path.
\<close>

theorem constructor_pool:
  "apiKeys (fst (constructor ks k))
     = (if configuredKeys ks \<noteq> [] then configuredKeys ks
        else case k of None \<Rightarrow> [] | Some l \<Rightarrow> if trim l = [] then [] else [trim l]) \<and>
   (\<forall>s. ks = Some s \<longrightarrow>
      join CHR '','' (split CHR '','' s) = s \<and>
      (\<forall>w \<in> set (split CHR '','' s). CHR '','' \<notin> set w) \<and>
      configuredKeys ks = filter (\<lambda>e. e \<noteq> []) (map trim (split CHR '','' s))) \<and>
   (ks = None \<longrightarrow> configuredKeys ks = []) \<and>
   clients (fst (constructor ks k)) = map GoogleGenAI (apiKeys (fst (constructor ks k))) \<and>
   nextClientIndex (fst (constructor ks k)) = 0 \<and>
   snd (constructor ks k)
     = (if clients (fst (constructor ks k)) = [] then [warnDisabled] else [])"
proof -
  have a: "apiKeys (fst (constructor ks k))
     = (if configuredKeys ks \<noteq> [] then configuredKeys ks
        else case k of None \<Rightarrow> [] | Some l \<Rightarrow> if trim l = [] then [] else [trim l])"
    by (rule constructor_apiKeys)
  have b: "\<forall>s. ks = Some s \<longrightarrow>
      join CHR '','' (split CHR '','' s) = s \<and>
      (\<forall>w \<in> set (split CHR '','' s). CHR '','' \<notin> set w) \<and>
      configuredKeys ks = filter (\<lambda>e. e \<noteq> []) (map trim (split CHR '','' s))"
    using split_no_sep [of _ "CHR '',''"] by (auto simp: join_split configuredKeys_def)
  have c: "ks = None \<longrightarrow> configuredKeys ks = []"
    by (simp add: configuredKeys_def)
  have d: "clients (fst (constructor ks k)) = map GoogleGenAI (apiKeys (fst (constructor ks k)))"
    and e: "nextClientIndex (fst (constructor ks k)) = 0"
    and f: "snd (constructor ks k)
     = (if clients (fst (constructor ks k)) = [] then [warnDisabled] else [])"
    by (simp_all add: constructor_def Let_def)
  from a b c d e f show ?thesis by blast
qed

theorem constructor_pool_witness:
  "split CHR '','' '' a , ,b,a'' = ['' a '', '' '', ''b'', ''a''] \<and>
   apiKeys (fst (constructor (Some '' a , ,b,a'') None)) = [''a'', ''b'', ''a''] \<and>
   snd (constructor (Some '' a , ,b,a'') None) = [] \<and>
   apiKeys (fst (constructor (Some '' '') (Some '' legacy ''))) = [''legacy''] \<and>
   apiKeys (fst (constructor None None)) = [] \<and>
   snd (constructor None None) = [warnDisabled]"
proof -
  have s: "split CHR '','' '' a , ,b,a'' = ['' a '', '' '', ''b'', ''a'']"
    by simp
  have c1: "configuredKeys (Some '' a , ,b,a'') = [''a'', ''b'', ''a'']"
    using constructor_pool [of "Some '' a , ,b,a''" None] s trim_example by simp
  have c2: "configuredKeys (Some '' '') = []"
    using constructor_pool [of "Some '' ''" "Some '' legacy ''"] trim_example by simp
  show ?thesis
    using s c1 c2 trim_example
      constructor_pool [of "Some '' a , ,b,a''" None]
      constructor_pool [of "Some '' ''" "Some '' legacy ''"]
      constructor_pool [of None None]
    by simp
qed


section \<open>Tolerant JSON extraction: the properties\<close>

lemma indexOf_ge: "- 1 \<le> indexOf s ch"
  by (induction s) (auto simp: Let_def)

lemma indexOf_takeWhile:
  "indexOf s ch = (if ch \<in> set s then int (length (takeWhile (\<lambda>c. c \<noteq> ch) s)) else - 1)"
  by (induction s) (auto simp: Let_def)

lemma takeWhile_neq_less: "x \<in> set xs \<Longrightarrow> length (takeWhile (\<lambda>c. c \<noteq> x) xs) < length xs"
  by (induction xs) auto

lemma lastIndexOf_lastOccurrence:
  "lastIndexOf s ch = (if ch \<in> set s then int (lastOccurrence s ch) else - 1)"
proof (cases "ch \<in> set s")
  case False
  then show ?thesis by (simp add: lastIndexOf_def indexOf_takeWhile)
next
  case True
  then have "length (takeWhile (\<lambda>c. c \<noteq> ch) (rev s)) < length s"
    using takeWhile_neq_less [of ch "rev s"] by simp
  then show ?thesis
    using True by (simp add: lastIndexOf_def indexOf_takeWhile lastOccurrence_def Let_def)
qed

lemma lastOccurrence_less: "ch \<in> set s \<Longrightarrow> lastOccurrence s ch < length s"
  by (cases s) (auto simp: lastOccurrence_def)

lemma opener_step:
  fixes a b :: int
  assumes "- 1 \<le> a" "- 1 \<le> b"
  shows "map_option (\<lambda>(i, cl). (Suc i, cl))
           (if a \<noteq> - 1 \<and> (b = - 1 \<or> a < b) then Some (nat a, x)
            else if b \<noteq> - 1 then Some (nat b, y) else None)
         = (if (if a = - 1 then - 1 else a + 1) \<noteq> - 1 \<and>
               ((if b = - 1 then - 1 else b + 1) = - 1 \<or>
                (if a = - 1 then - 1 else a + 1) < (if b = - 1 then - 1 else b + 1))
            then Some (nat (if a = - 1 then - 1 else a + 1), x)
            else if (if b = - 1 then - 1 else b + 1) \<noteq> - 1
                 then Some (nat (if b = - 1 then - 1 else b + 1), y) else None)"
proof -
  consider "a = - 1" "b = - 1" | "a = - 1" "0 \<le> b" | "0 \<le> a" "b = - 1" | "0 \<le> a" "0 \<le> b"
    using assms by linarith
  then show ?thesis
  proof cases
    case 1
    then show ?thesis by simp
  next
    case 2
    then show ?thesis by (simp add: nat_add_distrib)
  next
    case 3
    then show ?thesis by (simp add: nat_add_distrib)
  next
    case 4
    then show ?thesis by (simp add: nat_add_distrib)
  qed
qed

lemma opener_indexOf:
  "opener text =
     (if indexOf text CHR ''{'' \<noteq> - 1 \<and>
         (indexOf text CHR ''['' = - 1 \<or> indexOf text CHR ''{'' < indexOf text CHR ''['')
      then Some (nat (indexOf text CHR ''{''), CHR ''}'')
      else if indexOf text CHR ''['' \<noteq> - 1 then Some (nat (indexOf text CHR ''[''), CHR '']'')
      else None)"
proof (induction "text")
  case Nil
  then show ?case by simp
next
  case (Cons c cs)
  have g1: "- 1 \<le> indexOf cs CHR ''{''" and g2: "- 1 \<le> indexOf cs CHR ''[''"
    by (rule indexOf_ge)+
  consider "c = CHR ''{''" | "c = CHR ''[''" | "c \<noteq> CHR ''{''" "c \<noteq> CHR ''[''"
    by blast
  then show ?case
  proof cases
    case 1
    then show ?thesis using g2 by (simp add: Let_def)
  next
    case 2
    then show ?thesis using g1 by (simp add: Let_def)
  next
    case 3
    have i1: "indexOf (c # cs) CHR ''{''
              = (if indexOf cs CHR ''{'' = - 1 then - 1 else indexOf cs CHR ''{'' + 1)"
      and i2: "indexOf (c # cs) CHR ''[''
              = (if indexOf cs CHR ''['' = - 1 then - 1 else indexOf cs CHR ''['' + 1)"
      using 3 by (simp_all add: Let_def)
    have "opener (c # cs) = map_option (\<lambda>(i, cl). (Suc i, cl)) (opener cs)"
      using 3 by simp
    also have "\<dots> = map_option (\<lambda>(i, cl). (Suc i, cl))
           (if indexOf cs CHR ''{'' \<noteq> - 1 \<and> (indexOf cs CHR ''['' = - 1 \<or> indexOf cs CHR ''{'' < indexOf cs CHR ''['')
            then Some (nat (indexOf cs CHR ''{''), CHR ''}'')
            else if indexOf cs CHR ''['' \<noteq> - 1 then Some (nat (indexOf cs CHR ''[''), CHR '']'') else None)"
      by (simp only: Cons.IH)
    finally show ?thesis
      unfolding i1 i2 by (simp only: opener_step [OF g1 g2])
  qed
qed

lemma opener_less: "opener text = Some (i, cl) \<Longrightarrow> i < length text"
  by (induction "text" arbitrary: i) (auto split: if_splits)

lemma substring_candidate:
  "i \<le> j \<Longrightarrow> j < length text \<Longrightarrow>
   substring text (int i) (int j + 1) = candidate text i j"
  by (simp add: substring_def candidate_def Let_def min_def max_def nat_diff_distrib nat_add_distrib)

lemma substring_prefix: "substring text 0 100 = take 100 text"
  by (auto simp: substring_def Let_def min_def max_def)

lemma cleanJson_direct:
  "JSON_parse (trim (removeAll ''```'' (removeAll ''```json'' text))) = Some v \<Longrightarrow>
   cleanJson JSON_parse text = Inr v"
  by (simp add: cleanJson_def)

lemma cleanJson_fallback:
  assumes "JSON_parse (trim (removeAll ''```'' (removeAll ''```json'' text))) = None"
  shows "cleanJson JSON_parse text =
     (case opener text of
        None \<Rightarrow> Inl (Error (failureMessage text))
      | Some (i, cl) \<Rightarrow>
          if cl \<in> set text
          then (case JSON_parse (substring text (int i) (int (lastOccurrence text cl) + 1)) of
                  Some u \<Rightarrow> Inr u
                | None \<Rightarrow> Inl (SyntaxError (substring text (int i) (int (lastOccurrence text cl) + 1))))
          else Inl (Error (failureMessage text)))"
proof -
  let ?fb = "indexOf text CHR ''{''" and ?fk = "indexOf text CHR ''[''"
  let ?lb = "lastIndexOf text CHR ''}''" and ?lk = "lastIndexOf text CHR '']''"
  let ?sel = "if ?fb \<noteq> - 1 \<and> (?fk = - 1 \<or> ?fb < ?fk) then (?fb, ?lb)
              else if ?fk \<noteq> - 1 then (?fk, ?lk) else (- 1, - 1)"
  have m: "''Failed to parse JSON from AI response: '' @ substring text 0 100 @ ''...'' = failureMessage text"
    by (simp add: failureMessage_def substring_prefix)
  have unfold: "cleanJson JSON_parse text =
      (case ?sel of (start, end) \<Rightarrow>
         if start \<noteq> - 1 \<and> end \<noteq> - 1
         then (case JSON_parse (substring text start (end + 1)) of
                 Some v \<Rightarrow> Inr v
               | None \<Rightarrow> Inl (SyntaxError (substring text start (end + 1))))
         else Inl (Error (failureMessage text)))"
    unfolding cleanJson_def Let_def m using assms by simp
  have chosen: "\<And>st cl i. ?sel = (int i, if cl \<in> set text then int (lastOccurrence text cl) else - 1) \<Longrightarrow>
      i < length text \<Longrightarrow>
      cleanJson JSON_parse text =
        (if cl \<in> set text
         then (case JSON_parse (substring text (int i) (int (lastOccurrence text cl) + 1)) of
                 Some u \<Rightarrow> Inr u
               | None \<Rightarrow> Inl (SyntaxError (substring text (int i) (int (lastOccurrence text cl) + 1))))
         else Inl (Error (failureMessage text)))"
  proof -
    fix cl i
    assume sel: "?sel = (int i, if cl \<in> set text then int (lastOccurrence text cl) else - 1)"
      and il: "i < length text"
    show "cleanJson JSON_parse text =
        (if cl \<in> set text
         then (case JSON_parse (substring text (int i) (int (lastOccurrence text cl) + 1)) of
                 Some u \<Rightarrow> Inr u
               | None \<Rightarrow> Inl (SyntaxError (substring text (int i) (int (lastOccurrence text cl) + 1))))
         else Inl (Error (failureMessage text)))"
    proof (cases "cl \<in> set text")
      case True
      show ?thesis
        unfolding unfold sel using True by simp
    next
      case False
      show ?thesis
        unfolding unfold sel using False by simp
    qed
  qed
  consider (brace) "?fb \<noteq> - 1 \<and> (?fk = - 1 \<or> ?fb < ?fk)"
    | (bracket) "\<not> (?fb \<noteq> - 1 \<and> (?fk = - 1 \<or> ?fb < ?fk))" "?fk \<noteq> - 1"
    | (neither) "\<not> (?fb \<noteq> - 1 \<and> (?fk = - 1 \<or> ?fb < ?fk))" "\<not> ?fk \<noteq> - 1"
    by blast
  then show ?thesis
  proof cases
    case brace
    have o: "opener text = Some (nat ?fb, CHR ''}'')"
      unfolding opener_indexOf [of "text"] by (rule if_P [OF brace])
    have nn: "0 \<le> ?fb" using brace indexOf_ge [of "text" "CHR ''{''"] by linarith
    have "?sel = (?fb, ?lb)"
      by (rule if_P [OF brace])
    then have "?sel = (int (nat ?fb),
        if CHR ''}'' \<in> set text then int (lastOccurrence text CHR ''}'') else - 1)"
      using nn by (simp add: lastIndexOf_lastOccurrence)
    from chosen [OF this opener_less [OF o]] show ?thesis
      by (simp add: o)
  next
    case bracket
    have o: "opener text = Some (nat ?fk, CHR '']'')"
      unfolding opener_indexOf [of "text"]
      by (rule trans [OF if_not_P [OF bracket(1)] if_P [OF bracket(2)]])
    have nn: "0 \<le> ?fk" using bracket indexOf_ge [of "text" "CHR ''[''"] by linarith
    have "?sel = (?fk, ?lk)"
      by (rule trans [OF if_not_P [OF bracket(1)] if_P [OF bracket(2)]])
    then have "?sel = (int (nat ?fk),
        if CHR '']'' \<in> set text then int (lastOccurrence text CHR '']'') else - 1)"
      using nn by (simp add: lastIndexOf_lastOccurrence)
    from chosen [OF this opener_less [OF o]] show ?thesis
      by (simp add: o)
  next
    case neither
    have o: "opener text = None"
      unfolding opener_indexOf [of "text"]
      by (rule trans [OF if_not_P [OF neither(1)] if_not_P [OF neither(2)]])
    have "?sel = (- 1, - 1)"
      by (rule trans [OF if_not_P [OF neither(1)] if_not_P [OF neither(2)]])
    then have "cleanJson JSON_parse text = Inl (Error (failureMessage text))"
      unfolding unfold by simp
    then show ?thesis by (simp add: o)
  qed
qed

lemma cleanJson_parsed: "cleanJson JSON_parse text = Inr v \<Longrightarrow> \<exists>s. JSON_parse s = Some v"
proof (cases "JSON_parse (trim (removeAll ''```'' (removeAll ''```json'' text)))")
  case (Some u)
  assume "cleanJson JSON_parse text = Inr v"
  then have "u = v" using cleanJson_direct [of JSON_parse "text" u] Some by simp
  then show ?thesis using Some by blast
next
  case None
  assume "cleanJson JSON_parse text = Inr v"
  then show ?thesis
    unfolding cleanJson_fallback [of JSON_parse "text", OF None]
    by (auto split: option.splits if_splits)
qed

text \<open>The notions of the statement are what their names say.\<close>

lemma opener_first:
  "opener text = Some (i, cl) \<Longrightarrow>
   i < length text \<and>
   (text ! i = CHR ''{'' \<and> cl = CHR ''}'' \<or> text ! i = CHR ''['' \<and> cl = CHR '']'') \<and>
   (\<forall>k < i. text ! k \<noteq> CHR ''{'' \<and> text ! k \<noteq> CHR ''['')"
proof (induction "text" arbitrary: i)
  case Nil
  then show ?case by simp
next
  case (Cons c cs)
  show ?case
  proof (cases "c = CHR ''{'' \<or> c = CHR ''[''")
    case True
    then show ?thesis using Cons.prems by (auto split: if_splits)
  next
    case False
    then obtain i' where o: "opener cs = Some (i', cl)" and i: "i = Suc i'"
      using Cons.prems by auto
    show ?thesis using Cons.IH [OF o] False i by (auto simp: less_Suc_eq_0_disj)
  qed
qed

lemma opener_None: "opener text = None \<longleftrightarrow> CHR ''{'' \<notin> set text \<and> CHR ''['' \<notin> set text"
  by (induction "text") auto

lemma lastOccurrence_last:
  assumes "ch \<in> set s"
  shows "s ! lastOccurrence s ch = ch \<and> (\<forall>k. lastOccurrence s ch < k \<and> k < length s \<longrightarrow> s ! k \<noteq> ch)"
proof -
  let ?t = "takeWhile (\<lambda>c. c \<noteq> ch) (rev s)"
  let ?n = "length ?t"
  have n: "?n < length s" using takeWhile_neq_less [of ch "rev s"] assms by simp
  have r: "rev s ! ?n = ch"
    using nth_length_takeWhile [of "\<lambda>c. c \<noteq> ch" "rev s"] n by auto
  have a: "s ! lastOccurrence s ch = ch"
    using r n by (simp add: rev_nth lastOccurrence_def)
  have b: "\<forall>k. lastOccurrence s ch < k \<and> k < length s \<longrightarrow> s ! k \<noteq> ch"
  proof (intro allI impI)
    fix k assume k: "lastOccurrence s ch < k \<and> k < length s"
    let ?j = "length s - 1 - k"
    have j: "?j < ?n" using k n by (simp add: lastOccurrence_def) linarith
    have "?t ! ?j \<in> set ?t" using j by simp
    then have "?t ! ?j \<noteq> ch" using set_takeWhileD by fastforce
    then have "rev s ! ?j \<noteq> ch"
      using takeWhile_nth [of ?j "\<lambda>c. c \<noteq> ch" "rev s"] j by simp
    moreover have "?j < length s" and "length s - Suc ?j = k"
      using k by linarith+
    then have "rev s ! ?j = s ! k"
      using rev_nth [of ?j s] by simp
    ultimately show "s ! k \<noteq> ch" by simp
  qed
  from a b show ?thesis by blast
qed

text \<open>
  C7, as stated, fails in the case where the piece between the delimiters does not
  parse: \<^verbatim>\<open>cleanJson\<close> then throws the \<^verbatim>\<open>SyntaxError\<close> of \<^verbatim>\<open>JSON.parse\<close> for that piece, not
  its own error with the first 100 characters of the text.
\<close>

theorem cleanJson_syntax_error_propagates:
  "jsonParse ''{draft}'' = None \<and>
   cleanJson jsonParse ''Sure {draft}'' = Inl (SyntaxError ''{draft}'') \<and>
   cleanJson jsonParse ''Sure {draft}'' \<noteq> Inl (Error (failureMessage ''Sure {draft}''))"
proof -
  have a: "jsonParse ''{draft}'' = None"
    by code_simp
  have b: "cleanJson jsonParse ''Sure {draft}'' = Inl (SyntaxError ''{draft}'')"
    by code_simp
  from a b show ?thesis by simp
qed

text \<open>
  C7, amended. \<^verbatim>\<open>cleanJson\<close> removes the fence markers, trims and parses; a value parsed
  is returned. Otherwise it looks in the original text for the first brace or bracket,
  which decides between object and array, and for the last occurrence of the closer that
  belongs to it. Without an opener, or without that closer anywhere in the text, it
  throws its own error, whose message is a fixed prefix, the first 100 characters of the
  text and three dots. With an opener and a last closer that does not stand before it,
  it parses the piece from the opener through that closer; a value parsed is returned,
  and a piece that does not parse makes \<^verbatim>\<open>JSON.parse\<close> throw its own \<^verbatim>\<open>SyntaxError\<close> for
  that piece. Whatever \<^verbatim>\<open>cleanJson\<close> returns is a value that \<^verbatim>\<open>JSON.parse\<close> returned for
  some text.
\<close>

theorem cleanJson_extraction:
  "(JSON_parse (trim (removeAll ''```'' (removeAll ''```json'' text))) = Some v \<longrightarrow>
      cleanJson JSON_parse text = Inr v) \<and>
   (JSON_parse (trim (removeAll ''```'' (removeAll ''```json'' text))) = None \<and>
    opener text = None \<longrightarrow>
      cleanJson JSON_parse text = Inl (Error (failureMessage text))) \<and>
   (JSON_parse (trim (removeAll ''```'' (removeAll ''```json'' text))) = None \<and>
    opener text = Some (i, cl) \<and> cl \<notin> set text \<longrightarrow>
      cleanJson JSON_parse text = Inl (Error (failureMessage text))) \<and>
   (JSON_parse (trim (removeAll ''```'' (removeAll ''```json'' text))) = None \<and>
    opener text = Some (i, cl) \<and> cl \<in> set text \<and> i \<le> lastOccurrence text cl \<longrightarrow>
      cleanJson JSON_parse text
        = (case JSON_parse (candidate text i (lastOccurrence text cl)) of
             Some u \<Rightarrow> Inr u
           | None \<Rightarrow> Inl (SyntaxError (candidate text i (lastOccurrence text cl))))) \<and>
   (opener text = Some (i, cl) \<longrightarrow>
      i < length text \<and>
      (text ! i = CHR ''{'' \<and> cl = CHR ''}'' \<or> text ! i = CHR ''['' \<and> cl = CHR '']'') \<and>
      (\<forall>k < i. text ! k \<noteq> CHR ''{'' \<and> text ! k \<noteq> CHR ''['')) \<and>
   (opener text = None \<longleftrightarrow> CHR ''{'' \<notin> set text \<and> CHR ''['' \<notin> set text) \<and>
   (cl \<in> set text \<longrightarrow>
      text ! lastOccurrence text cl = cl \<and>
      (\<forall>k. lastOccurrence text cl < k \<and> k < length text \<longrightarrow> text ! k \<noteq> cl)) \<and>
   (cleanJson JSON_parse text = Inr v \<longrightarrow> (\<exists>s. JSON_parse s = Some v)) \<and>
   failureMessage text = ''Failed to parse JSON from AI response: '' @ take 100 text @ ''...''"
proof -
  let ?simple = "trim (removeAll ''```'' (removeAll ''```json'' text))"
  have a: "JSON_parse ?simple = Some v \<longrightarrow> cleanJson JSON_parse text = Inr v"
    using cleanJson_direct [of JSON_parse "text" v] by blast
  have f: "JSON_parse ?simple = None \<longrightarrow> cleanJson JSON_parse text =
     (case opener text of
        None \<Rightarrow> Inl (Error (failureMessage text))
      | Some (i, cl) \<Rightarrow>
          if cl \<in> set text
          then (case JSON_parse (substring text (int i) (int (lastOccurrence text cl) + 1)) of
                  Some u \<Rightarrow> Inr u
                | None \<Rightarrow> Inl (SyntaxError (substring text (int i) (int (lastOccurrence text cl) + 1))))
          else Inl (Error (failureMessage text)))"
    using cleanJson_fallback [of JSON_parse "text"] by blast
  have b: "JSON_parse ?simple = None \<and> opener text = None \<longrightarrow>
      cleanJson JSON_parse text = Inl (Error (failureMessage text))"
    using f by simp
  have c: "JSON_parse ?simple = None \<and> opener text = Some (i, cl) \<and> cl \<notin> set text \<longrightarrow>
      cleanJson JSON_parse text = Inl (Error (failureMessage text))"
    using f by simp
  have d: "JSON_parse ?simple = None \<and> opener text = Some (i, cl) \<and> cl \<in> set text \<and>
      i \<le> lastOccurrence text cl \<longrightarrow>
      cleanJson JSON_parse text
        = (case JSON_parse (candidate text i (lastOccurrence text cl)) of
             Some u \<Rightarrow> Inr u
           | None \<Rightarrow> Inl (SyntaxError (candidate text i (lastOccurrence text cl))))"
  proof
    assume h: "JSON_parse ?simple = None \<and> opener text = Some (i, cl) \<and> cl \<in> set text \<and>
      i \<le> lastOccurrence text cl"
    then have s: "substring text (int i) (int (lastOccurrence text cl) + 1)
                  = candidate text i (lastOccurrence text cl)"
      using substring_candidate [of i "lastOccurrence text cl" "text"] lastOccurrence_less [of cl "text"]
      by blast
    show "cleanJson JSON_parse text
        = (case JSON_parse (candidate text i (lastOccurrence text cl)) of
             Some u \<Rightarrow> Inr u
           | None \<Rightarrow> Inl (SyntaxError (candidate text i (lastOccurrence text cl))))"
      using f h by (simp add: s cong: option.case_cong)
  qed
  have e: "opener text = Some (i, cl) \<longrightarrow>
      i < length text \<and>
      (text ! i = CHR ''{'' \<and> cl = CHR ''}'' \<or> text ! i = CHR ''['' \<and> cl = CHR '']'') \<and>
      (\<forall>k < i. text ! k \<noteq> CHR ''{'' \<and> text ! k \<noteq> CHR ''['')"
    using opener_first [of "text" i cl] by blast
  have g: "opener text = None \<longleftrightarrow> CHR ''{'' \<notin> set text \<and> CHR ''['' \<notin> set text"
    by (rule opener_None)
  have h: "cl \<in> set text \<longrightarrow>
      text ! lastOccurrence text cl = cl \<and>
      (\<forall>k. lastOccurrence text cl < k \<and> k < length text \<longrightarrow> text ! k \<noteq> cl)"
    using lastOccurrence_last [of cl "text"] by blast
  have p: "cleanJson JSON_parse text = Inr v \<longrightarrow> (\<exists>s. JSON_parse s = Some v)"
    using cleanJson_parsed [of JSON_parse "text" v] by blast
  have m: "failureMessage text = ''Failed to parse JSON from AI response: '' @ take 100 text @ ''...''"
    by (simp add: failureMessage_def)
  from a b c d e g h p m show ?thesis by blast
qed

theorem cleanJson_extraction_witness:
  "jsonParse (trim (removeAll ''```'' (removeAll ''```json'' ''```json [1] ```''))) = Some (JsonArray [JsonNumber ''1'']) \<and>
   cleanJson jsonParse ''```json [1] ```'' = Inr (JsonArray [JsonNumber ''1'']) \<and>
   jsonParse (trim (removeAll ''```'' (removeAll ''```json'' fencedReply))) = None \<and>
   opener fencedReply = Some (14, CHR ''}'') \<and>
   cleanJson jsonParse fencedReply = Inr (JsonObject [(''a'', JsonNumber ''1'')]) \<and>
   opener ''prefix [1,2,3] suffix'' = Some (7, CHR '']'') \<and>
   cleanJson jsonParse ''prefix [1,2,3] suffix''
     = Inr (JsonArray [JsonNumber ''1'', JsonNumber ''2'', JsonNumber ''3'']) \<and>
   opener ''no delimiters here'' = None \<and>
   cleanJson jsonParse ''no delimiters here''
     = Inl (Error ''Failed to parse JSON from AI response: no delimiters here...'') \<and>
   opener ''broken { reply'' = Some (7, CHR ''}'') \<and> CHR ''}'' \<notin> set ''broken { reply'' \<and>
   cleanJson jsonParse ''broken { reply''
     = Inl (Error ''Failed to parse JSON from AI response: broken { reply...'')"
proof -
  have d1: "jsonParse (trim (removeAll ''```'' (removeAll ''```json'' ''```json [1] ```''))) = Some (JsonArray [JsonNumber ''1''])"
    by code_simp
  have d2: "cleanJson jsonParse ''```json [1] ```'' = Inr (JsonArray [JsonNumber ''1''])"
    using d1 cleanJson_extraction [of jsonParse "''```json [1] ```''" "JsonArray [JsonNumber ''1'']"]
    by blast
  have f1: "jsonParse (trim (removeAll ''```'' (removeAll ''```json'' fencedReply))) = None"
    by code_simp
  have f2: "opener fencedReply = Some (14, CHR ''}'')"
    by code_simp
  have f3: "CHR ''}'' \<in> set fencedReply \<and> 14 \<le> lastOccurrence fencedReply CHR ''}''"
    by (simp add: fencedReply_def lastOccurrence_def)
  have f4: "jsonParse (candidate fencedReply 14 (lastOccurrence fencedReply CHR ''}''))
            = Some (JsonObject [(''a'', JsonNumber ''1'')])"
    by code_simp
  have f5: "cleanJson jsonParse fencedReply = Inr (JsonObject [(''a'', JsonNumber ''1'')])"
    using f1 f2 f3 f4 cleanJson_extraction [of jsonParse fencedReply _ 14 "CHR ''}''"]
    by simp
  have p1: "jsonParse (trim (removeAll ''```'' (removeAll ''```json'' ''prefix [1,2,3] suffix''))) = None"
    by code_simp
  have p2: "opener ''prefix [1,2,3] suffix'' = Some (7, CHR '']'')"
    by code_simp
  have p3: "CHR '']'' \<in> set ''prefix [1,2,3] suffix'' \<and>
            7 \<le> lastOccurrence ''prefix [1,2,3] suffix'' CHR '']''"
    by (simp add: lastOccurrence_def)
  have p4: "jsonParse (candidate ''prefix [1,2,3] suffix'' 7 (lastOccurrence ''prefix [1,2,3] suffix'' CHR '']''))
            = Some (JsonArray [JsonNumber ''1'', JsonNumber ''2'', JsonNumber ''3''])"
    by code_simp
  have p5: "cleanJson jsonParse ''prefix [1,2,3] suffix''
     = Inr (JsonArray [JsonNumber ''1'', JsonNumber ''2'', JsonNumber ''3''])"
    using p1 p2 p3 p4 cleanJson_extraction [of jsonParse "''prefix [1,2,3] suffix''" _ 7 "CHR '']''"]
    by simp
  have n1: "jsonParse (trim (removeAll ''```'' (removeAll ''```json'' ''no delimiters here''))) = None"
    by code_simp
  have n2: "opener ''no delimiters here'' = None"
    by code_simp
  have n3: "cleanJson jsonParse ''no delimiters here''
     = Inl (Error ''Failed to parse JSON from AI response: no delimiters here...'')"
    using n1 n2 cleanJson_extraction [of jsonParse "''no delimiters here''"]
    by simp
  have b1: "jsonParse (trim (removeAll ''```'' (removeAll ''```json'' ''broken { reply''))) = None"
    by code_simp
  have b2: "opener ''broken { reply'' = Some (7, CHR ''}'')"
    by code_simp
  have b3: "CHR ''}'' \<notin> set ''broken { reply''"
    by simp
  have b4: "cleanJson jsonParse ''broken { reply''
     = Inl (Error ''Failed to parse JSON from AI response: broken { reply...'')"
    using b1 b2 b3 cleanJson_extraction [of jsonParse "''broken { reply''" _ 7 "CHR ''}''"]
    by simp
  from d1 d2 f1 f2 f5 p2 p5 n2 n3 b2 b3 b4 show ?thesis by blast
qed

end
